theory Spec2Isabelle
  imports Complex_Main "HOL-Library.Multiset"
begin

section \<open>Errors and error-propagating loops\<close>

text \<open>
  The exceptions the modelled code can raise.  \<open>Exception\<close> is the plain
  \<^verbatim>\<open>Exception\<close> thrown by \<^verbatim>\<open>sample_two_neighbors\<close>; the others are the
  interpreter's and the numeric libraries' own.
\<close>

datatype error =
  IndexError | KeyError | ValueError | AssertionError | AttributeError | RuntimeError | Exception

text \<open>A \<^verbatim>\<open>for\<close> loop whose body may raise: the first error ends the loop.\<close>

fun foldE :: "('s \<Rightarrow> 'a \<Rightarrow> error + 's) \<Rightarrow> 'a list \<Rightarrow> 's \<Rightarrow> error + 's" where
  "foldE f [] s = Inr s"
| "foldE f (x # xs) s = (case f s x of Inl e \<Rightarrow> Inl e | Inr s' \<Rightarrow> foldE f xs s')"

section \<open>Adjacency matrices and hop distances\<close>

text \<open>
  The adjacency matrix \<^verbatim>\<open>A\<close> is a list of rows; an entry different from 0 is a
  stored edge.  \<^verbatim>\<open>A.shape\<close> is \<open>(shape0 A, shape1 A)\<close>.
\<close>

type_synonym adjacency = "nat list list"

definition shape0 :: "adjacency \<Rightarrow> nat" where
  "shape0 A = length A"

definition shape1 :: "adjacency \<Rightarrow> nat" where
  "shape1 A = (case A of [] \<Rightarrow> 0 | r # _ \<Rightarrow> length r)"

definition square :: "adjacency \<Rightarrow> bool" where
  "square A = list_all (\<lambda>r. length r = length A) A"

text \<open>
  \<^verbatim>\<open>scipy.sparse.csgraph.shortest_path(A, method="D", unweighted=True, directed=False)\<close>
  is library code.  Its contract: the entry \<open>(i, j)\<close> is the least number of edges of
  a path between \<open>i\<close> and \<open>j\<close>, an edge being usable in both directions
  (\<^verbatim>\<open>directed=False\<close>), and \<^verbatim>\<open>inf\<close> when there is no path; a matrix
  that is not square is refused.  \<open>reach A k i\<close> lists the nodes at most \<open>k\<close> hops
  from \<open>i\<close>, \<open>None\<close> stands for \<^verbatim>\<open>inf\<close>.
\<close>

definition linked :: "adjacency \<Rightarrow> nat \<Rightarrow> nat \<Rightarrow> bool" where
  "linked A i j = (A ! i ! j \<noteq> 0 \<or> A ! j ! i \<noteq> 0)"

fun reach :: "adjacency \<Rightarrow> nat \<Rightarrow> nat \<Rightarrow> nat list" where
  "reach A 0 i = [i]"
| "reach A (Suc k) i =
     filter (\<lambda>j. j \<in> set (reach A k i) \<or> list_ex (\<lambda>m. linked A m j) (reach A k i))
       [0..<length A]"

definition hops :: "adjacency \<Rightarrow> nat \<Rightarrow> nat \<Rightarrow> nat option" where
  "hops A i j = find (\<lambda>k. j \<in> set (reach A k i)) [0..<length A]"

definition shortest_path :: "adjacency \<Rightarrow> error + nat option list list" where
  "shortest_path A =
     (if square A
      then Inr (map (\<lambda>i. map (hops A i) [0..<length A]) [0..<length A])
      else Inl ValueError)"

section \<open>Level sets\<close>

type_synonym shells = "nat list list"

type_synonym level_map = "nat \<rightharpoonup> shells"

text \<open>
  \<^verbatim>\<open>D[np.logical_not(np.isfinite(D))] = -1.0; D = D.astype(np.int)\<close> and, when
  \<^verbatim>\<open>K\<close> is given, \<^verbatim>\<open>D[D > K] = -1\<close>.
\<close>

definition to_int :: "nat option list list \<Rightarrow> int list list" where
  "to_int D = map (map (\<lambda>d. case d of None \<Rightarrow> - 1 | Some k \<Rightarrow> int k)) D"

definition clip :: "int option \<Rightarrow> int list list \<Rightarrow> int list list" where
  "clip K D = (case K of None \<Rightarrow> D | Some k \<Rightarrow> map (map (\<lambda>d. if d > k then - 1 else d)) D)"

text \<open>\<^verbatim>\<open>D.max(axis=1)\<close>, on rows that have at least one column.\<close>

definition row_max :: "int list \<Rightarrow> int" where
  "row_max r = fold max r (hd r)"

text \<open>
  \<^verbatim>\<open>sets[i][d].append(x)\<close>: a missing key and an index out of range raise; a
  negative index counts from the end of the list.
\<close>

definition append_at :: "level_map \<Rightarrow> nat \<Rightarrow> int \<Rightarrow> nat \<Rightarrow> error + level_map" where
  "append_at sets i d x =
     (case sets i of
        None \<Rightarrow> Inl KeyError
      | Some ls \<Rightarrow>
          (let n = int (length ls); k = (if d < 0 then n + d else d)
           in if 0 \<le> k \<and> k < n then Inr (sets(i \<mapsto> ls[nat k := ls ! nat k @ [x]]))
              else Inl IndexError))"

text \<open>The body of the inner loop, for the pair \<open>(i, j)\<close> with \<open>j < i\<close>.\<close>

definition place :: "int list list \<Rightarrow> nat \<Rightarrow> level_map \<Rightarrow> nat \<Rightarrow> error + level_map" where
  "place D i sets j =
     (let d = D ! i ! j
      in if d < 0
         then (case append_at sets i (- 1) j of Inl e \<Rightarrow> Inl e | Inr s \<Rightarrow> append_at s j (- 1) i)
         else (case append_at sets i d j of Inl e \<Rightarrow> Inl e | Inr s \<Rightarrow> append_at s j d i))"

text \<open>The body of the outer loop.\<close>

definition visit :: "int list list \<Rightarrow> level_map \<Rightarrow> nat \<Rightarrow> error + level_map" where
  "visit D sets i =
     (case append_at sets i 0 i of Inl e \<Rightarrow> Inl e | Inr s \<Rightarrow> foldE (place D i) [0..<i] s)"

text \<open>Reading the level sets off the distance matrix (the second half of \<^verbatim>\<open>level_sets\<close>).\<close>

definition read_level_sets :: "int list list \<Rightarrow> error + level_map" where
  "read_level_sets D =
     (let set_counts = map row_max D;
          sets = (\<lambda>i. if i < length D
                       then Some (replicate (nat (1 + set_counts ! i + 1)) [])
                       else None)
      in foldE (visit D) [0..<length D] sets)"

definition level_sets :: "adjacency \<Rightarrow> int option \<Rightarrow> error + level_map" where
  "level_sets A K =
     (if shape0 A = 0 \<or> shape1 A = 0 then Inr Map.empty
      else case shortest_path A of
             Inl e \<Rightarrow> Inl e
           | Inr D \<Rightarrow> read_level_sets (clip K (to_int D)))"

section \<open>Random numbers\<close>

text \<open>
  \<^verbatim>\<open>np.random\<close> is global state.  It is modelled as the stream of numbers still to be
  drawn.  \<^verbatim>\<open>random_sample(size)\<close>, the library's source of uniform variates, consumes
  the first \<open>size'\<close> numbers of the stream; their fractional parts are the variates in
  \<open>[0, 1)\<close> that it returns.
\<close>

type_synonym random_state = "nat \<Rightarrow> real"

definition random_sample :: "nat \<Rightarrow> random_state \<Rightarrow> real list \<times> random_state" where
  "random_sample size' r = (map (\<lambda>t. frac (r t)) [0..<size'], \<lambda>t. r (t + size'))"

text \<open>
  \<^verbatim>\<open>np.random.choice(a, size=size, p=p, replace=True)\<close>.  The library refuses an
  empty population and a \<open>p\<close> that is not a probability vector of length \<open>a\<close>.
  Otherwise it draws by inversion, as \<^verbatim>\<open>cdf = p.cumsum()\<close>,
  \<^verbatim>\<open>uniform_samples = random_sample(size)\<close> and
  \<^verbatim>\<open>cdf.searchsorted(uniform_samples, side='right')\<close>: the index drawn for the variate
  \<open>u\<close> is the number of entries of \<open>cdf\<close> that are at most \<open>u\<close>.
\<close>

definition random_choice ::
  "nat \<Rightarrow> nat \<Rightarrow> real list \<Rightarrow> random_state \<Rightarrow> (error + nat list) \<times> random_state" where
  "random_choice a size' pr r =
     (if a = 0 \<or> length pr \<noteq> a \<or> list_ex (\<lambda>x. x < 0) pr \<or> sum_list pr \<noteq> 1
      then (Inl ValueError, r)
      else (let cdf = map (\<lambda>t. sum_list (take (Suc t) pr)) [0..<a];
                (uniform_samples, r') = random_sample size' r
            in (Inr (map (\<lambda>u. length (filter (\<lambda>c. c \<le> u) cdf)) uniform_samples), r')))"

text \<open>
  \<^verbatim>\<open>np.random.randint(high)\<close> for an array \<open>high\<close>: one number in \<open>[0, high[t])\<close>
  for each entry, uniformly: the variate \<open>u\<close> gives \<open>\<lfloor>u * high[t]\<rfloor>\<close>.  An entry that is
  not positive is refused.
\<close>

definition random_randint :: "nat list \<Rightarrow> random_state \<Rightarrow> (error + nat list) \<times> random_state" where
  "random_randint high r =
     (if list_ex (\<lambda>h. h = 0) high then (Inl ValueError, r)
      else (let (uniform_samples, r') = random_sample (length high) r
            in (Inr (map (\<lambda>(u, h). nat \<lfloor>u * real h\<rfloor>) (zip uniform_samples high)), r')))"

text \<open>\<^verbatim>\<open>xs[idx]\<close> for an index array \<open>idx\<close>.\<close>

definition index_array :: "'a list \<Rightarrow> nat list \<Rightarrow> error + 'a list" where
  "index_array xs idx =
     (if list_all (\<lambda>t. t < length xs) idx then Inr (map (\<lambda>t. xs ! t) idx) else Inl IndexError)"

section \<open>The complete k-partite graph\<close>

record CompleteKPartiteGraph =
  partitions :: "nat list list"
  counts :: "nat list"
  total :: nat
  nodes :: "nat list"
  n_i :: "nat list"
  start_i :: "nat list"
  out_degrees :: "nat list"
  p :: "real list"

fun cumsum_from :: "nat \<Rightarrow> nat list \<Rightarrow> nat list" where
  "cumsum_from a [] = []"
| "cumsum_from a (x # xs) = (a + x) # cumsum_from (a + x) xs"

definition cumsum :: "nat list \<Rightarrow> nat list" where
  "cumsum xs = cumsum_from 0 xs"

text \<open>
  \<^verbatim>\<open>CompleteKPartiteGraph.__init__\<close>.  The sizes and offsets are natural numbers:
  \<open>end - n\<close> and \<open>total - n_i\<close> never go below zero, since \<open>end\<close> is a running sum
  that includes \<open>n\<close> and \<open>total\<close> is the sum of all sizes.
\<close>

definition CompleteKPartiteGraph_init :: "nat list list \<Rightarrow> error + CompleteKPartiteGraph" where
  "CompleteKPartiteGraph_init parts =
     (let cs = map length parts;
          tot = sum_list cs
      in if \<not> 2 \<le> length parts then Inl AssertionError
         else if \<not> list_all (\<lambda>c. 0 < c) cs then Inl AssertionError
         else
           (let nds = concat parts;
                ni = concat (map (\<lambda>(partition, n). map (\<lambda>_. n) partition) (zip parts cs));
                si = concat (map (\<lambda>(partition, n, end). map (\<lambda>node. end - n) partition)
                               (zip parts (zip cs (cumsum cs))));
                od = map (\<lambda>(t, n). t - n) (zip (replicate tot tot) ni);
                pr = map (\<lambda>d. real d / real (sum_list od)) od
            in Inr \<lparr>partitions = parts, counts = cs, total = tot, nodes = nds, n_i = ni,
                     start_i = si, out_degrees = od, p = pr\<rparr>))"

text \<open>
  \<^verbatim>\<open>k += filter.astype(np.int) * self.n_i[j]\<close> with
  \<^verbatim>\<open>filter = k >= self.start_i[j]\<close>, for one entry.
\<close>

definition skip_own :: "nat \<Rightarrow> nat \<Rightarrow> nat \<Rightarrow> nat" where
  "skip_own start n k = k + (if start \<le> k then 1 else 0) * n"

text \<open>The swap of the entries where \<^verbatim>\<open>wrong_order = k < j\<close>, for one entry.\<close>

definition swap_wrong_order :: "nat \<times> nat \<Rightarrow> nat \<times> nat" where
  "swap_wrong_order jk = (case jk of (j, k) \<Rightarrow> if k < j then (k, j) else (j, k))"

text \<open>
  The first half of \<^verbatim>\<open>sample_edges\<close>: the originating nodes \<open>j\<close> and, for each,
  the other end \<open>k\<close> of one outgoing edge, as dense indices.
\<close>

definition draw_edges ::
  "CompleteKPartiteGraph \<Rightarrow> nat \<Rightarrow> random_state
     \<Rightarrow> (error + nat list \<times> nat list) \<times> random_state" where
  "draw_edges g size' r =
     (case random_choice (total g) size' (p g) r of
        (Inl e, r1) \<Rightarrow> (Inl e, r1)
      | (Inr j, r1) \<Rightarrow>
     (case index_array (out_degrees g) j of
        Inl e \<Rightarrow> (Inl e, r1)
      | Inr deg \<Rightarrow>
     (case random_randint deg r1 of
        (Inl e, r2) \<Rightarrow> (Inl e, r2)
      | (Inr k, r2) \<Rightarrow>
     (case index_array (start_i g) j of
        Inl e \<Rightarrow> (Inl e, r2)
      | Inr start \<Rightarrow>
     (case index_array (n_i g) j of
        Inl e \<Rightarrow> (Inl e, r2)
      | Inr n \<Rightarrow>
          (Inr (j, map (\<lambda>(k, start, n). skip_own start n k) (zip k (zip start n))), r2))))))"

text \<open>
  \<^verbatim>\<open>sample_edges\<close>: the draw, then the swap into the order of the partitions and the
  translation of the dense indices into node identifiers.
\<close>

definition sample_edges ::
  "CompleteKPartiteGraph \<Rightarrow> nat \<Rightarrow> random_state
     \<Rightarrow> (error + nat list \<times> nat list) \<times> random_state" where
  "sample_edges g size' r =
     (case draw_edges g size' r of
        (Inl e, r2) \<Rightarrow> (Inl e, r2)
      | (Inr (j, k), r2) \<Rightarrow>
     (let jk = map swap_wrong_order (zip j k)
      in case index_array (nodes g) (map fst jk) of
           Inl e \<Rightarrow> (Inl e, r2)
         | Inr js \<Rightarrow>
        (case index_array (nodes g) (map snd jk) of
           Inl e \<Rightarrow> (Inl e, r2)
         | Inr ks \<Rightarrow> (Inr (js, ks), r2))))"

section \<open>The attributed graph\<close>

text \<open>
  The attribute matrix and the labels are carried along and never inspected, so their
  types are parameters.
\<close>

record ('x, 'z) AttributedGraph =
  graph_A :: adjacency
  graph_X :: 'x
  graph_z :: 'z
  graph_level_sets :: level_map
  level_counts :: "nat \<rightharpoonup> int list"
  loss_weights :: "real list"
  neighborhoods :: "CompleteKPartiteGraph option list"

fun mapE :: "('a \<Rightarrow> error + 'b) \<Rightarrow> 'a list \<Rightarrow> error + 'b list" where
  "mapE f [] = Inr []"
| "mapE f (x # xs) =
     (case f x of
        Inl e \<Rightarrow> Inl e
      | Inr y \<Rightarrow> (case mapE f xs of Inl e \<Rightarrow> Inl e | Inr ys \<Rightarrow> Inr (y # ys)))"

text \<open>
  One entry of \<^verbatim>\<open>loss_weights\<close>:
  \<^verbatim>\<open>0.5 * (N[i][1:].sum() ** 2 - (N[i][1:] ** 2).sum())\<close>, the floating-point product
  read as a real number.
\<close>

definition loss_weight :: "int list \<Rightarrow> real" where
  "loss_weight Ni =
     0.5 * real_of_int ((sum_list (drop 1 Ni))\<^sup>2 - sum_list (map (\<lambda>c. c\<^sup>2) (drop 1 Ni)))"

text \<open>The body of the loop that fills \<^verbatim>\<open>neighborhoods\<close>.\<close>

definition build_neighborhood ::
  "level_map \<Rightarrow> CompleteKPartiteGraph option list \<Rightarrow> nat
     \<Rightarrow> error + CompleteKPartiteGraph option list" where
  "build_neighborhood sets nb i =
     (case sets i of
        None \<Rightarrow> Inl KeyError
      | Some ls \<Rightarrow>
          if 3 \<le> length ls
          then (case CompleteKPartiteGraph_init (drop 1 ls) of
                  Inl e \<Rightarrow> Inl e
                | Inr s \<Rightarrow> if i < length nb then Inr (nb[i := Some s]) else Inl IndexError)
          else Inr nb)"

definition AttributedGraph_init ::
  "adjacency \<Rightarrow> 'x \<Rightarrow> 'z \<Rightarrow> int option \<Rightarrow> error + ('x, 'z) AttributedGraph" where
  "AttributedGraph_init A X z K =
     (case level_sets A K of
        Inl e \<Rightarrow> Inl e
      | Inr sets \<Rightarrow>
     (let N = (\<lambda>node. map_option (map (\<lambda>s. int (length s))) (sets node))
      in case mapE (\<lambda>i. case N i of None \<Rightarrow> Inl KeyError | Some Ni \<Rightarrow> Inr (loss_weight Ni))
                [0..<shape0 A] of
           Inl e \<Rightarrow> Inl e
         | Inr ws \<Rightarrow>
        (let n = shape0 A
         in case foldE (build_neighborhood sets) [0..<n] (replicate n None) of
              Inl e \<Rightarrow> Inl e
            | Inr nb \<Rightarrow>
                Inr \<lparr>graph_A = A, graph_X = X, graph_z = z, graph_level_sets = sets,
                     level_counts = N, loss_weights = ws, neighborhoods = nb\<rparr>)))"

definition graph_nodes :: "('x, 'z) AttributedGraph \<Rightarrow> nat list" where
  "graph_nodes g = [0..<shape0 (graph_A g)]"

definition eligible_nodes :: "('x, 'z) AttributedGraph \<Rightarrow> error + nat list" where
  "eligible_nodes g =
     (case mapE (\<lambda>i. case level_counts g i of
                        None \<Rightarrow> Inl KeyError
                      | Some Ni \<Rightarrow> Inr (i, 3 \<le> length Ni))
             (graph_nodes g) of
        Inl e \<Rightarrow> Inl e
      | Inr marked \<Rightarrow> Inr (map fst (filter snd marked)))"

definition sample_two_neighbors ::
  "('x, 'z) AttributedGraph \<Rightarrow> nat \<Rightarrow> nat \<Rightarrow> random_state
     \<Rightarrow> (error + nat list \<times> nat list) \<times> random_state" where
  "sample_two_neighbors g node size' r =
     (case graph_level_sets g node of
        None \<Rightarrow> (Inl KeyError, r)
      | Some ls \<Rightarrow>
          if length ls < 3 then (Inl Exception, r)
          else if \<not> node < length (neighborhoods g) then (Inl IndexError, r)
          else (case neighborhoods g ! node of
                  None \<Rightarrow> (Inl AttributeError, r)
                | Some s \<Rightarrow> sample_edges s size' r))"

section \<open>The closer energy of the loss\<close>

text \<open>
  Tensors are lists of rows of real numbers: the embedding reads the floating-point
  operations of the loss as the real operations they approximate.
  \<^verbatim>\<open>gather_rows\<close> picks the rows named by an index tensor.
\<close>

definition gather_rows :: "real list list \<Rightarrow> nat list \<Rightarrow> error + real list list" where
  "gather_rows input index =
     (if list_all (\<lambda>t. t < length input) index then Inr (map (\<lambda>t. input ! t) index)
      else Inl RuntimeError)"

text \<open>
  The lines of \<^verbatim>\<open>compute_loss\<close> that compute \<^verbatim>\<open>closer\<close>, from the encoder's output
  \<open>(mu, sigma)\<close> and the index tensors \<open>i\<close> and \<open>j\<close>; \<open>L\<close> is \<^verbatim>\<open>self.L\<close>.
  The index tensors of a batch have one length; the elementwise operations refuse
  tensors of different lengths.
\<close>

definition closer_row :: "nat \<Rightarrow> real list \<Rightarrow> real list \<Rightarrow> real list \<Rightarrow> real list \<Rightarrow> real" where
  "closer_row L mu_i sigma_i mu_j sigma_j =
     (let diff_ij = map (\<lambda>(a, b). a - b) (zip mu_i mu_j);
          ratio_ji = map (\<lambda>(a, b). a / b) (zip sigma_j sigma_i)
      in 0.5 * (sum_list ratio_ji
                + sum_list (map (\<lambda>(d, s). d\<^sup>2 / s) (zip diff_ij sigma_i))
                - real L
                - sum_list (map ln ratio_ji)))"

definition closer_energy ::
  "nat \<Rightarrow> real list list \<Rightarrow> real list list \<Rightarrow> nat list \<Rightarrow> nat list \<Rightarrow> error + real list" where
  "closer_energy L mu sigma i j =
     (if length i \<noteq> length j then Inl RuntimeError else
      case gather_rows mu i of Inl e \<Rightarrow> Inl e | Inr mu_i \<Rightarrow>
      case gather_rows sigma i of Inl e \<Rightarrow> Inl e | Inr sigma_i \<Rightarrow>
      case gather_rows mu j of Inl e \<Rightarrow> Inl e | Inr mu_j \<Rightarrow>
      case gather_rows sigma j of Inl e \<Rightarrow> Inl e | Inr sigma_j \<Rightarrow>
        Inr (map (\<lambda>(mi, si, mj, sj). closer_row L mi si mj sj)
               (zip mu_i (zip sigma_i (zip mu_j sigma_j)))))"

section \<open>Dense indices and partitions\<close>

text \<open>
  The sampler numbers the nodes of all partitions densely, partition after partition.
  \<open>partition_of parts t\<close> is the index of the partition that holds the dense index
  \<open>t\<close>, and \<open>offset_of parts q\<close> the dense index at which partition \<open>q\<close> starts.  They
  are used to state what the sampler's arrays hold.
\<close>

fun partition_of :: "nat list list \<Rightarrow> nat \<Rightarrow> nat" where
  "partition_of [] t = 0"
| "partition_of (q # qs) t = (if t < length q then 0 else Suc (partition_of qs (t - length q)))"

definition offset_of :: "nat list list \<Rightarrow> nat \<Rightarrow> nat" where
  "offset_of parts q = sum_list (map length (take q parts))"

section \<open>The shells as the loops leave them\<close>

text \<open>
  What the loops of \<^verbatim>\<open>level_sets\<close> build, written without the loops: node \<open>i\<close> has
  \<open>n_shells D i\<close> shells; the node \<open>x\<close> goes to the shell \<open>shell_index D i x\<close> of
  node \<open>i\<close>, which is shell 0 for \<open>i\<close> itself, the last shell for a negative entry of
  the distance matrix and the shell of the distance otherwise; and after \<open>a\<close> rounds of
  the outer loop the nodes appended to the shells of \<open>i\<close> are, in this order,
  \<open>seen a i\<close>.  \<open>distance_matrix n D\<close> says that \<open>D\<close> is an \<open>n\<close> by \<open>n\<close> symmetric
  matrix with no entry below \<open>-1\<close>.
\<close>

definition n_shells :: "int list list \<Rightarrow> nat \<Rightarrow> nat" where
  "n_shells D i = nat (1 + row_max (D ! i) + 1)"

definition shell_index :: "int list list \<Rightarrow> nat \<Rightarrow> nat \<Rightarrow> nat" where
  "shell_index D i x =
     (if x = i then 0 else if D ! i ! x < 0 then n_shells D i - 1 else nat (D ! i ! x))"

definition shells_of :: "int list list \<Rightarrow> nat \<Rightarrow> nat list \<Rightarrow> shells" where
  "shells_of D i seq = map (\<lambda>s. filter (\<lambda>x. shell_index D i x = s) seq) [0..<n_shells D i]"

definition layout :: "int list list \<Rightarrow> nat \<Rightarrow> (nat \<Rightarrow> nat list) \<Rightarrow> level_map" where
  "layout D n seq = (\<lambda>i. if i < n then Some (shells_of D i (seq i)) else None)"

definition distance_matrix :: "nat \<Rightarrow> int list list \<Rightarrow> bool" where
  "distance_matrix n D \<longleftrightarrow>
     length D = n \<and> (\<forall>i<n. length (D ! i) = n) \<and>
     (\<forall>i<n. \<forall>j<n. D ! i ! j = D ! j ! i \<and> - 1 \<le> D ! i ! j)"

definition seen :: "nat \<Rightarrow> nat \<Rightarrow> nat list" where
  "seen a i = (if i < a then i # [0..<i] @ [Suc i..<a] else [])"

section \<open>Facts about the error-propagating loops\<close>

lemma mapE_Inr:
  "mapE f xs = Inr ys \<Longrightarrow> length ys = length xs \<and> (\<forall>t<length xs. f (xs ! t) = Inr (ys ! t))"
proof (induction xs arbitrary: ys)
  case Nil
  then show ?case by simp
next
  case (Cons x xs)
  from Cons.prems obtain y ys' where fx: "f x = Inr y" and rest: "mapE f xs = Inr ys'"
    and ys: "ys = y # ys'"
    by (auto split: sum.splits)
  from Cons.IH [OF rest] have len: "length ys' = length xs"
    and nth: "\<forall>t<length xs. f (xs ! t) = Inr (ys' ! t)" by auto
  show ?case
  proof (intro conjI allI impI)
    show "length ys = length (x # xs)" using len ys by simp
  next
    fix t assume "t < length (x # xs)"
    then show "f ((x # xs) ! t) = Inr (ys ! t)"
      using fx nth ys by (cases t) auto
  qed
qed

lemma mapE_all:
  "(\<And>x. x \<in> set xs \<Longrightarrow> f x = Inr (h x)) \<Longrightarrow> mapE f xs = Inr (map h xs)"
  by (induction xs) auto

lemma marked_filter: "map fst (filter snd (map (\<lambda>i. (i, c i)) xs)) = filter c xs"
  by (induction xs) auto

lemma foldE_append:
  "foldE f (xs @ ys) s = (case foldE f xs s of Inl e \<Rightarrow> Inl e | Inr s' \<Rightarrow> foldE f ys s')"
  by (induction xs arbitrary: s) (auto split: sum.splits)

section \<open>The arrays of the sampler\<close>

lemma n_i_list:
  "concat (map (\<lambda>(partition, n). map (\<lambda>_. n) partition) (zip parts (map length parts)))
     = concat (map (\<lambda>q. replicate (length q) (length q)) parts)"
  by (induction parts) (auto simp: map_replicate_const)

lemma start_i_list:
  "concat (map (\<lambda>(partition, n, end). map (\<lambda>node. end - n) partition)
             (zip parts (zip (map length parts) (cumsum_from a (map length parts)))))
     ! t = a + offset_of parts (partition_of parts t)"
  if "t < length (concat parts)"
  using that
proof (induction parts arbitrary: a t)
  case Nil
  then show ?case by simp
next
  case (Cons q qs)
  show ?case
  proof (cases "t < length q")
    case True
    then show ?thesis by (simp add: nth_append offset_of_def)
  next
    case False
    then have "t - length q < length (concat qs)" using Cons.prems by auto
    from Cons.IH [OF this, of "a + length q"] False
    show ?thesis by (simp add: nth_append offset_of_def)
  qed
qed

lemma start_i_length:
  "length (concat (map (\<lambda>(partition, n, end). map (\<lambda>node. end - n) partition)
             (zip parts (zip (map length parts) (cumsum_from a (map length parts))))))
     = length (concat parts)"
  by (induction parts arbitrary: a) auto

lemma n_i_nth:
  "t < length (concat parts) \<Longrightarrow>
   concat (map (\<lambda>q. replicate (length q) (length q)) parts) ! t
     = length (parts ! partition_of parts t)"
proof (induction parts arbitrary: t)
  case Nil
  then show ?case by simp
next
  case (Cons q qs)
  then show ?case by (cases "t < length q") (auto simp: nth_append)
qed

lemma n_i_length:
  "length (concat (map (\<lambda>q. replicate (length q) (length q)) parts)) = length (concat parts)"
  by (induction parts) auto

lemma partition_of_less:
  "t < length (concat parts) \<Longrightarrow> partition_of parts t < length parts"
proof (induction parts arbitrary: t)
  case Nil
  then show ?case by simp
next
  case (Cons q qs)
  then show ?case by (cases "t < length q") auto
qed

lemma partition_of_block:
  "t < length (concat parts) \<Longrightarrow>
   offset_of parts (partition_of parts t) \<le> t \<and>
   t < offset_of parts (partition_of parts t) + length (parts ! partition_of parts t) \<and>
   concat parts ! t = parts ! partition_of parts t ! (t - offset_of parts (partition_of parts t))"
proof (induction parts arbitrary: t)
  case Nil
  then show ?case by simp
next
  case (Cons q qs)
  show ?case
  proof (cases "t < length q")
    case True
    then show ?thesis by (simp add: offset_of_def nth_append)
  next
    case False
    then have "t - length q < length (concat qs)" using Cons.prems by auto
    from Cons.IH [OF this]
    have a: "offset_of qs (partition_of qs (t - length q)) \<le> t - length q"
      and b: "t - length q < offset_of qs (partition_of qs (t - length q))
                + length (qs ! partition_of qs (t - length q))"
      and c: "concat qs ! (t - length q) = qs ! partition_of qs (t - length q) !
                (t - length q - offset_of qs (partition_of qs (t - length q)))"
      by auto
    have p: "partition_of (q # qs) t = Suc (partition_of qs (t - length q))"
      using False by simp
    have o: "offset_of (q # qs) (Suc (partition_of qs (t - length q)))
               = length q + offset_of qs (partition_of qs (t - length q))"
      by (simp add: offset_of_def)
    have d: "concat (q # qs) ! t = concat qs ! (t - length q)"
      using False by (simp add: nth_append)
    have e: "t - (length q + offset_of qs (partition_of qs (t - length q)))
               = t - length q - offset_of qs (partition_of qs (t - length q))"
      by simp
    have f: "length q + offset_of qs (partition_of qs (t - length q)) \<le> t"
      using a False by linarith
    have g: "t < length q + offset_of qs (partition_of qs (t - length q))
                + length (qs ! partition_of qs (t - length q))"
      using b False by linarith
    have h: "(q # qs) ! Suc (partition_of qs (t - length q)) = qs ! partition_of qs (t - length q)"
      by simp
    show ?thesis
      unfolding p o d e h using f g c by blast
  qed
qed

lemma partition_of_unique:
  "q < length parts \<Longrightarrow> offset_of parts q \<le> t \<Longrightarrow> t < offset_of parts q + length (parts ! q)
   \<Longrightarrow> partition_of parts t = q"
proof (induction parts arbitrary: q t)
  case Nil
  then show ?case by simp
next
  case (Cons a parts)
  show ?case
  proof (cases q)
    case 0
    then show ?thesis using Cons.prems by (simp add: offset_of_def)
  next
    case (Suc q')
    then show ?thesis using Cons.prems Cons.IH [of q' "t - length a"]
      by (auto simp: offset_of_def)
  qed
qed

lemma partition_of_mono:
  "t \<le> t' \<Longrightarrow> partition_of parts t \<le> partition_of parts t'"
proof (induction parts arbitrary: t t')
  case Nil
  then show ?case by simp
next
  case (Cons q qs)
  then show ?case by (auto intro!: Cons.IH)
qed

lemma partition_of_member:
  "t < length (concat parts) \<Longrightarrow> concat parts ! t \<in> set (parts ! partition_of parts t)"
  using partition_of_block [of t parts] by (metis add.commute less_diff_conv2 nth_mem)

lemma same_partition_iff:
  assumes "t < length (concat parts)" and "t' < length (concat parts)"
  shows "partition_of parts t' = partition_of parts t \<longleftrightarrow>
         offset_of parts (partition_of parts t) \<le> t' \<and>
         t' < offset_of parts (partition_of parts t) + length (parts ! partition_of parts t)"
  using partition_of_block [OF assms(2)] partition_of_unique [of "partition_of parts t" parts t']
    partition_of_less [OF assms(1)]
  by auto

lemma part_less_total:
  "2 \<le> length cs \<Longrightarrow> list_all (\<lambda>c. 0 < c) cs \<Longrightarrow> q < length cs \<Longrightarrow> cs ! q < sum_list (cs::nat list)"
proof (induction cs arbitrary: q)
  case Nil
  then show ?case by simp
next
  case (Cons c cs)
  show ?case
  proof (cases q)
    case 0
    from Cons.prems obtain d ds where "cs = d # ds" by (cases cs) auto
    with Cons.prems have "0 < sum_list cs" by auto
    with 0 show ?thesis by simp
  next
    case (Suc q')
    with Cons.prems have "cs ! q' \<le> sum_list cs"
      by (auto intro!: member_le_sum_list)
    with Suc Cons.prems show ?thesis by auto
  qed
qed

lemma sum_list_divide:
  "sum_list (map (\<lambda>d. real d / c) ds) = real (sum_list ds) / c"
  by (induction ds) (auto simp: add_divide_distrib)

lemma init_unfold:
  assumes "CompleteKPartiteGraph_init parts = Inr g"
  shows "2 \<le> length parts" and "list_all (\<lambda>c. 0 < c) (map length parts)"
    and "partitions g = parts" and "counts g = map length parts"
    and "total g = length (concat parts)" and "nodes g = concat parts"
    and "n_i g = concat (map (\<lambda>q. replicate (length q) (length q)) parts)"
    and "start_i g = concat (map (\<lambda>(partition, n, end). map (\<lambda>node. end - n) partition)
             (zip parts (zip (map length parts) (cumsum_from 0 (map length parts)))))"
    and "out_degrees g = map (\<lambda>(t, n). t - n) (zip (replicate (total g) (total g)) (n_i g))"
    and "p g = map (\<lambda>d. real d / real (sum_list (out_degrees g))) (out_degrees g)"
  using assms
  unfolding CompleteKPartiteGraph_init_def Let_def cumsum_def n_i_list
  by (auto split: if_splits simp: length_concat)

lemma init_lengths:
  assumes "CompleteKPartiteGraph_init parts = Inr g"
  shows "length (nodes g) = total g" and "length (n_i g) = total g"
    and "length (start_i g) = total g" and "length (out_degrees g) = total g"
    and "length (p g) = total g" and "2 \<le> total g"
proof -
  note u = init_unfold [OF assms]
  show "length (nodes g) = total g" using u(5,6) by simp
  show n: "length (n_i g) = total g" unfolding u(7) u(5) by (rule n_i_length)
  show "length (start_i g) = total g" unfolding u(8) u(5) by (rule start_i_length)
  show o: "length (out_degrees g) = total g" unfolding u(9) using n by simp
  show "length (p g) = total g" unfolding u(10) using o by simp
  from u(1,2) obtain a b qs where "parts = a # b # qs" and "a \<noteq> []" and "b \<noteq> []"
    by (cases parts; cases "tl parts") auto
  then have "2 \<le> length (concat parts)"
    by (cases a; cases b) auto
  then show "2 \<le> total g" using u(5) by simp
qed

lemma init_entries:
  assumes "CompleteKPartiteGraph_init parts = Inr g" and "t < total g"
  shows "n_i g ! t = length (parts ! partition_of parts t)"
    and "start_i g ! t = offset_of parts (partition_of parts t)"
    and "out_degrees g ! t = total g - n_i g ! t"
    and "n_i g ! t < total g"
    and "0 < out_degrees g ! t"
    and "start_i g ! t \<le> t" and "t < start_i g ! t + n_i g ! t"
    and "partition_of parts t < length parts"
proof -
  note u = init_unfold [OF assms(1)] and l = init_lengths [OF assms(1)]
  have t: "t < length (concat parts)" using assms(2) u(5) by simp
  show n: "n_i g ! t = length (parts ! partition_of parts t)"
    unfolding u(7) by (rule n_i_nth [OF t])
  show s: "start_i g ! t = offset_of parts (partition_of parts t)"
    unfolding u(8) using start_i_list [OF t, of 0] by simp
  show o: "out_degrees g ! t = total g - n_i g ! t"
    unfolding u(9) using assms(2) l(2) by simp
  show q: "partition_of parts t < length parts" by (rule partition_of_less [OF t])
  have "map length parts ! partition_of parts t < sum_list (map length parts)"
    using part_less_total [OF _ u(2), of "partition_of parts t"] u(1) q by simp
  then show m: "n_i g ! t < total g" using n q u(5) by (simp add: length_concat)
  show "0 < out_degrees g ! t" using o m by simp
  show "start_i g ! t \<le> t" and "t < start_i g ! t + n_i g ! t"
    using partition_of_block [OF t] n s by auto
qed

lemma init_probabilities:
  assumes "CompleteKPartiteGraph_init parts = Inr g"
  shows "0 < sum_list (out_degrees g)" and "sum_list (p g) = 1"
    and "\<And>t. t < total g \<Longrightarrow> p g ! t = real (out_degrees g ! t) / real (sum_list (out_degrees g))"
    and "\<And>t. t < total g \<Longrightarrow> 0 < p g ! t"
proof -
  note u = init_unfold [OF assms] and l = init_lengths [OF assms]
  have "out_degrees g ! 0 \<le> sum_list (out_degrees g)"
    using member_le_sum_list [of "out_degrees g ! 0" "out_degrees g"] l(4,6) by simp
  moreover have "0 < out_degrees g ! 0" using init_entries(5) [OF assms, of 0] l(6) by simp
  ultimately show pos: "0 < sum_list (out_degrees g)" by simp
  have nz: "real (sum_list (out_degrees g)) \<noteq> 0"
    using gr_implies_not0 [OF pos] by (metis of_nat_eq_0_iff)
  show "sum_list (p g) = 1"
    unfolding u(10) sum_list_divide by (rule divide_self [OF nz])
  show e: "p g ! t = real (out_degrees g ! t) / real (sum_list (out_degrees g))" if "t < total g" for t
    using that l(4) by (subst u(10)) simp
  show "0 < p g ! t" if "t < total g" for t
    unfolding e [OF that] using pos init_entries(5) [OF assms that]
    by (intro divide_pos_pos) (simp_all only: of_nat_0_less_iff)
qed

lemma skip_own_outside:
  assumes "k < tot - n" and "n < tot"
  shows "skip_own start n k < tot" and "\<not> (start \<le> skip_own start n k \<and> skip_own start n k < start + n)"
  using assms by (auto simp: skip_own_def)

section \<open>Sampling edges\<close>

lemma partial_sum_Suc:
  "m < length pr \<Longrightarrow> sum_list (take (Suc m) pr) = sum_list (take m pr) + (pr ! m :: real)"
  by (simp add: take_Suc_conv_app_nth)

lemma partial_sum_mono:
  assumes "\<forall>t<length pr. 0 < (pr ! t :: real)" and "m \<le> m'" and "m' \<le> length pr"
  shows "sum_list (take m pr) \<le> sum_list (take m' pr)"
  using assms(2,3)
proof (induction m')
  case 0
  then show ?case by simp
next
  case (Suc m')
  show ?case
  proof (cases "m = Suc m'")
    case True
    then show ?thesis by simp
  next
    case False
    then have "sum_list (take m pr) \<le> sum_list (take m' pr)" using Suc by simp
    moreover have "0 < pr ! m'" using assms(1) Suc.prems by simp
    ultimately show ?thesis using partial_sum_Suc [of m' pr] Suc.prems by simp
  qed
qed

lemma partial_sum_interval:
  fixes u :: real
  assumes "sum_list (take 0 pr) \<le> u" and "u < sum_list (take m pr)"
  shows "\<exists>j<m. sum_list (take j pr) \<le> u \<and> u < sum_list (take (Suc j) pr)"
  using assms(2)
proof (induction m)
  case 0
  then show ?case using assms(1) by simp
next
  case (Suc m)
  show ?case
  proof (cases "u < sum_list (take m pr)")
    case True
    from Suc.IH [OF this] show ?thesis using less_Suc_eq by blast
  next
    case False
    then show ?thesis using Suc.prems by (intro exI [of _ m]) simp
  qed
qed

lemma searchsorted_interval:
  assumes "\<forall>t<length pr. 0 < (pr ! t :: real)" and "j < length pr"
    and "sum_list (take j pr) \<le> u" and "u < sum_list (take (Suc j) pr)"
  shows "length (filter (\<lambda>c. c \<le> u) (map (\<lambda>t. sum_list (take (Suc t) pr)) [0..<length pr])) = j"
proof -
  have split: "[0..<length pr] = [0..<j] @ [j..<length pr]"
    using assms(2) by (metis le_add_diff_inverse less_imp_le_nat upt_add_eq_append zero_le)
  have low: "filter (\<lambda>t. sum_list (take (Suc t) pr) \<le> u) [0..<j] = [0..<j]"
  proof (intro filter_True ballI)
    fix t assume "t \<in> set [0..<j]"
    then have "sum_list (take (Suc t) pr) \<le> sum_list (take j pr)"
      using assms(2) by (intro partial_sum_mono [OF assms(1)]) simp_all
    then show "sum_list (take (Suc t) pr) \<le> u" using assms(3) by simp
  qed
  have high: "filter (\<lambda>t. sum_list (take (Suc t) pr) \<le> u) [j..<length pr] = []"
  proof (intro filter_False ballI)
    fix t assume "t \<in> set [j..<length pr]"
    then have "sum_list (take (Suc j) pr) \<le> sum_list (take (Suc t) pr)"
      by (intro partial_sum_mono [OF assms(1)]) simp_all
    then show "\<not> sum_list (take (Suc t) pr) \<le> u" using assms(4) by simp
  qed
  have "filter (\<lambda>c. c \<le> u) (map (\<lambda>t. sum_list (take (Suc t) pr)) [0..<length pr])
          = map (\<lambda>t. sum_list (take (Suc t) pr))
              (filter (\<lambda>t. sum_list (take (Suc t) pr) \<le> u) [0..<length pr])"
    by (simp add: filter_map comp_def)
  also have "filter (\<lambda>t. sum_list (take (Suc t) pr) \<le> u) [0..<length pr] = [0..<j]"
    by (subst split) (simp add: low high del: upt_Suc)
  finally show ?thesis by simp
qed

lemma searchsorted_iff:
  assumes "\<forall>t<length pr. 0 < (pr ! t :: real)" and "sum_list pr = 1" and "0 \<le> u" and "u < 1"
  shows "length (filter (\<lambda>c. c \<le> u) (map (\<lambda>t. sum_list (take (Suc t) pr)) [0..<length pr]))
           < length pr"
    and "j < length pr \<Longrightarrow>
         length (filter (\<lambda>c. c \<le> u) (map (\<lambda>t. sum_list (take (Suc t) pr)) [0..<length pr])) = j
           \<longleftrightarrow> sum_list (take j pr) \<le> u \<and> u < sum_list (take (Suc j) pr)"
proof -
  let ?c = "length (filter (\<lambda>c. c \<le> u) (map (\<lambda>t. sum_list (take (Suc t) pr)) [0..<length pr]))"
  have "sum_list (take 0 pr) \<le> u" using assms(3) by simp
  moreover have "u < sum_list (take (length pr) pr)" using assms(2,4) by simp
  ultimately obtain j0 where j0: "j0 < length pr"
    and lo: "sum_list (take j0 pr) \<le> u" and hi: "u < sum_list (take (Suc j0) pr)"
    using partial_sum_interval by blast
  have c: "?c = j0" by (rule searchsorted_interval [OF assms(1) j0 lo hi])
  show "?c < length pr" using c j0 by simp
  show "?c = j \<longleftrightarrow> sum_list (take j pr) \<le> u \<and> u < sum_list (take (Suc j) pr)"
    if j: "j < length pr"
  proof
    assume "?c = j"
    then show "sum_list (take j pr) \<le> u \<and> u < sum_list (take (Suc j) pr)"
      using c lo hi by simp
  next
    assume "sum_list (take j pr) \<le> u \<and> u < sum_list (take (Suc j) pr)"
    then show "?c = j" using searchsorted_interval [OF assms(1) j] by simp
  qed
qed

lemma floor_rank:
  assumes "0 \<le> u" and "u < 1" and "0 < h"
  shows "nat \<lfloor>u * real h\<rfloor> < h"
    and "nat \<lfloor>u * real h\<rfloor> = k \<longleftrightarrow> real k / real h \<le> u \<and> u < (real k + 1) / real h"
proof -
  have h: "0 < real h" using assms(3) by simp
  have nn: "0 \<le> u * real h" using assms(1) by simp
  have "u * real h < real h" using assms(2) h by simp
  then have "\<lfloor>u * real h\<rfloor> < int h" by (simp add: floor_less_iff)
  then show "nat \<lfloor>u * real h\<rfloor> < h" using assms(3) by linarith
  have fl: "0 \<le> \<lfloor>u * real h\<rfloor>" using nn by simp
  have "nat \<lfloor>u * real h\<rfloor> = k \<longleftrightarrow> \<lfloor>u * real h\<rfloor> = int k"
    using fl by linarith
  also have "\<dots> \<longleftrightarrow> real k \<le> u * real h \<and> u * real h < real k + 1"
    by (simp add: floor_eq_iff)
  also have "\<dots> \<longleftrightarrow> real k / real h \<le> u \<and> u < (real k + 1) / real h"
    using h by (simp add: pos_divide_le_eq pos_less_divide_eq)
  finally show "nat \<lfloor>u * real h\<rfloor> = k \<longleftrightarrow> real k / real h \<le> u \<and> u < (real k + 1) / real h" .
qed

lemma random_choice_ok:
  assumes "a \<noteq> 0" and "length pr = a" and "\<forall>t<a. 0 < pr ! t" and "sum_list pr = 1"
  shows "\<exists>js. random_choice a size' pr r = (Inr js, \<lambda>t. r (t + size')) \<and>
              length js = size' \<and>
              (\<forall>t<size'. js ! t < a \<and>
                 (\<forall>j<a. js ! t = j \<longleftrightarrow>
                    sum_list (take j pr) \<le> frac (r t) \<and> frac (r t) < sum_list (take (Suc j) pr)))"
proof -
  have "\<not> list_ex (\<lambda>x. x < 0) pr"
    using assms(2,3) by (auto simp: list_ex_iff in_set_conv_nth) (metis less_asym)
  then have e: "random_choice a size' pr r
      = (Inr (map (\<lambda>u. length (filter (\<lambda>c. c \<le> u)
                          (map (\<lambda>t. sum_list (take (Suc t) pr)) [0..<length pr])))
               (map (\<lambda>t. frac (r t)) [0..<size'])), \<lambda>t. r (t + size'))"
    using assms(1,2,4) by (simp add: random_choice_def random_sample_def)
  have pos: "\<forall>t<length pr. 0 < pr ! t" using assms(2,3) by simp
  note s = searchsorted_iff [OF pos assms(4) frac_ge_0 frac_lt_1]
  show ?thesis
    unfolding e using s assms(2) by simp
qed

lemma random_randint_ok:
  assumes "\<forall>t<length high. 0 < high ! t"
  shows "\<exists>ks. random_randint high r = (Inr ks, \<lambda>t. r (t + length high)) \<and>
              length ks = length high \<and>
              (\<forall>t<length high. ks ! t < high ! t \<and>
                 (\<forall>k. ks ! t = k \<longleftrightarrow>
                    real k / real (high ! t) \<le> frac (r t) \<and>
                    frac (r t) < (real k + 1) / real (high ! t)))"
proof -
  have "\<not> list_ex (\<lambda>h. h = 0) high"
    using assms by (auto simp: list_ex_iff in_set_conv_nth)
  then have e: "random_randint high r
      = (Inr (map (\<lambda>(u, h). nat \<lfloor>u * real h\<rfloor>) (zip (map (\<lambda>t. frac (r t)) [0..<length high]) high)),
         \<lambda>t. r (t + length high))"
    by (simp add: random_randint_def random_sample_def)
  show ?thesis
    unfolding e using floor_rank [OF frac_ge_0 frac_lt_1] assms by simp
qed

lemma index_array_ok:
  "\<forall>t<length idx. idx ! t < length xs \<Longrightarrow> index_array xs idx = Inr (map (\<lambda>t. xs ! t) idx)"
  by (auto simp: index_array_def list_all_length)

lemma swap_wrong_order_cases:
  "j \<noteq> k \<Longrightarrow> fst (swap_wrong_order (j, k)) < snd (swap_wrong_order (j, k)) \<and>
     ((fst (swap_wrong_order (j, k)) = j \<and> snd (swap_wrong_order (j, k)) = k) \<or>
      (fst (swap_wrong_order (j, k)) = k \<and> snd (swap_wrong_order (j, k)) = j))"
  by (auto simp: swap_wrong_order_def)

lemma draw_edges_ok:
  assumes "CompleteKPartiteGraph_init parts = Inr g"
  shows "\<exists>j rk. draw_edges g size' r
            = (Inr (j, map (\<lambda>(j, k). skip_own (start_i g ! j) (n_i g ! j) k) (zip j rk)),
               \<lambda>t. r (t + size' + size'))
          \<and> length j = size' \<and> length rk = size'
          \<and> (\<forall>t<size'. j ! t < total g \<and> rk ! t < out_degrees g ! (j ! t)
                \<and> (\<forall>j0<total g. j ! t = j0 \<longleftrightarrow>
                      sum_list (take j0 (p g)) \<le> frac (r t) \<and>
                      frac (r t) < sum_list (take (Suc j0) (p g)))
                \<and> (\<forall>k0. rk ! t = k0 \<longleftrightarrow>
                      real k0 / real (out_degrees g ! (j ! t)) \<le> frac (r (size' + t)) \<and>
                      frac (r (size' + t)) < (real k0 + 1) / real (out_degrees g ! (j ! t))))"
proof -
  note l = init_lengths [OF assms] and e = init_entries [OF assms]
    and pr = init_probabilities [OF assms]
  from random_choice_ok [of "total g" "p g" size' r] l(5,6) pr(2,4)
  obtain j where j: "random_choice (total g) size' (p g) r = (Inr j, \<lambda>t. r (t + size'))"
    and jl: "length j = size'"
    and jt: "\<forall>t<size'. j ! t < total g \<and>
                 (\<forall>j0<total g. j ! t = j0 \<longleftrightarrow>
                    sum_list (take j0 (p g)) \<le> frac (r t) \<and>
                    frac (r t) < sum_list (take (Suc j0) (p g)))"
    by auto
  have ia: "index_array xs j = Inr (map (\<lambda>t. xs ! t) j)" if "length xs = total g" for xs :: "nat list"
    using that jl jt by (intro index_array_ok) simp
  define deg where "deg = map (\<lambda>t. out_degrees g ! t) j"
  have dl: "length deg = size'" by (simp add: deg_def jl)
  have dn: "deg ! t = out_degrees g ! (j ! t)" if "t < size'" for t
    using that jl by (simp add: deg_def)
  have "\<forall>t<length deg. 0 < deg ! t"
    using e(5) jt jl by (simp add: deg_def)
  from random_randint_ok [OF this, of "\<lambda>t. r (t + size')"]
  obtain rk where k: "random_randint deg (\<lambda>t. r (t + size')) = (Inr rk, \<lambda>t. r (t + size' + size'))"
    and kl: "length rk = size'"
    and kt: "\<forall>t<size'. rk ! t < deg ! t \<and>
                 (\<forall>k0. rk ! t = k0 \<longleftrightarrow>
                    real k0 / real (deg ! t) \<le> frac (r (t + size')) \<and>
                    frac (r (t + size')) < (real k0 + 1) / real (deg ! t))"
    by (auto simp: dl add.assoc)
  have z: "map (\<lambda>(k, start, n). skip_own start n k)
             (zip rk (zip (map (\<lambda>t. start_i g ! t) j) (map (\<lambda>t. n_i g ! t) j)))
           = map (\<lambda>(j, k). skip_own (start_i g ! j) (n_i g ! j) k) (zip j rk)"
    using jl kl by (intro nth_equalityI) simp_all
  have d: "draw_edges g size' r
            = (Inr (j, map (\<lambda>(j, k). skip_own (start_i g ! j) (n_i g ! j) k) (zip j rk)),
               \<lambda>t. r (t + size' + size'))"
    unfolding draw_edges_def j
    using k ia [OF l(4)] ia [OF l(3)] ia [OF l(2)] z by (simp add: deg_def)
  have "j ! t < total g \<and> rk ! t < out_degrees g ! (j ! t)
                \<and> (\<forall>j0<total g. j ! t = j0 \<longleftrightarrow>
                      sum_list (take j0 (p g)) \<le> frac (r t) \<and>
                      frac (r t) < sum_list (take (Suc j0) (p g)))
                \<and> (\<forall>k0. rk ! t = k0 \<longleftrightarrow>
                      real k0 / real (out_degrees g ! (j ! t)) \<le> frac (r (size' + t)) \<and>
                      frac (r (size' + t)) < (real k0 + 1) / real (out_degrees g ! (j ! t)))"
    if t: "t < size'" for t
    using jt [rule_format, OF t] kt [rule_format, OF t] unfolding dn [OF t] add.commute [of size' t]
    by blast
  then show ?thesis using d jl kl by blast
qed

lemma sample_edges_ok:
  assumes "CompleteKPartiteGraph_init parts = Inr g"
  shows "\<exists>jd kd. sample_edges g size' r
            = (Inr (map (\<lambda>t. nodes g ! t) jd, map (\<lambda>t. nodes g ! t) kd), \<lambda>t. r (t + size' + size'))
          \<and> length jd = size' \<and> length kd = size'
          \<and> (\<forall>t<size'. jd ! t < kd ! t \<and> kd ! t < total g
                \<and> partition_of parts (jd ! t) \<noteq> partition_of parts (kd ! t))"
proof -
  note l = init_lengths [OF assms] and e = init_entries [OF assms]
    and u = init_unfold [OF assms]
  from draw_edges_ok [OF assms, of size' r] obtain j rk where
    d: "draw_edges g size' r
            = (Inr (j, map (\<lambda>(j, k). skip_own (start_i g ! j) (n_i g ! j) k) (zip j rk)),
               \<lambda>t. r (t + size' + size'))"
    and jl: "length j = size'" and kl: "length rk = size'"
    and jt: "\<forall>t<size'. j ! t < total g \<and> rk ! t < out_degrees g ! (j ! t)"
    by blast
  define k1 where "k1 = map (\<lambda>(j, k). skip_own (start_i g ! j) (n_i g ! j) k) (zip j rk)"
  define jk where "jk = map swap_wrong_order (zip j k1)"
  have k1l: "length k1 = size'" by (simp add: k1_def jl kl)
  have jkl: "length jk = size'" by (simp add: jk_def jl k1l)
  have k1n: "k1 ! t = skip_own (start_i g ! (j ! t)) (n_i g ! (j ! t)) (rk ! t)" if "t < size'" for t
    using that jl kl by (simp add: k1_def)
  have jkn: "jk ! t = swap_wrong_order (j ! t, k1 ! t)" if "t < size'" for t
    using that jl k1l by (simp add: jk_def)
  have main: "fst (jk ! t) < snd (jk ! t) \<and> snd (jk ! t) < total g
      \<and> partition_of parts (fst (jk ! t)) \<noteq> partition_of parts (snd (jk ! t))"
    if t: "t < size'" for t
  proof -
    have jt': "j ! t < total g" using jt t by simp
    have "rk ! t < total g - n_i g ! (j ! t)"
      using jt t e(3) [OF jt'] by auto
    from skip_own_outside [OF this e(4) [OF jt'], of "start_i g ! (j ! t)"]
    have a: "k1 ! t < total g"
      and b: "\<not> (start_i g ! (j ! t) \<le> k1 ! t \<and> k1 ! t < start_i g ! (j ! t) + n_i g ! (j ! t))"
      unfolding k1n [OF t] by auto
    have c: "partition_of parts (k1 ! t) \<noteq> partition_of parts (j ! t)"
      using same_partition_iff [of "j ! t" parts "k1 ! t"] a b jt' e(1,2) [OF jt'] u(5)
      by simp
    then have "j ! t \<noteq> k1 ! t" by auto
    from swap_wrong_order_cases [OF this] a jt' c show ?thesis
      unfolding jkn [OF t] by auto
  qed
  have in1: "\<forall>t<length (map fst jk). map fst jk ! t < length (nodes g)"
    using main jkl l(1) by (auto intro: less_trans)
  have in2: "\<forall>t<length (map snd jk). map snd jk ! t < length (nodes g)"
    using main jkl l(1) by auto
  have "sample_edges g size' r
      = (Inr (map (\<lambda>t. nodes g ! t) (map fst jk), map (\<lambda>t. nodes g ! t) (map snd jk)),
         \<lambda>t. r (t + size' + size'))"
    unfolding sample_edges_def d
    using index_array_ok [OF in1] index_array_ok [OF in2]
    by (simp add: Let_def k1_def jk_def)
  moreover have "\<forall>t<size'. map fst jk ! t < map snd jk ! t \<and> map snd jk ! t < total g
                \<and> partition_of parts (map fst jk ! t) \<noteq> partition_of parts (map snd jk ! t)"
    using main jkl by simp
  ultimately show ?thesis using jkl
    by (intro exI [of _ "map fst jk"] exI [of _ "map snd jk"]) simp
qed

lemma disjoint_partitions:
  "distinct (concat parts) \<Longrightarrow> a < length parts \<Longrightarrow> b < length parts \<Longrightarrow>
   x \<in> set (parts ! a) \<Longrightarrow> x \<in> set (parts ! b) \<Longrightarrow> a = b"
proof (induction parts arbitrary: a b)
  case Nil
  then show ?case by simp
next
  case (Cons q qs)
  have out: "x \<in> set (qs ! c) \<Longrightarrow> c < length qs \<Longrightarrow> x \<in> set (concat qs)" for c
    by auto
  show ?case
  proof (cases a; cases b)
    fix a' b' assume "a = Suc a'" "b = Suc b'"
    then show ?thesis using Cons.prems Cons.IH [of a' b'] by auto
  next
    fix b' assume "a = 0" "b = Suc b'"
    then show ?thesis using Cons.prems out [of b'] by auto
  next
    fix a' assume "a = Suc a'" "b = 0"
    then show ?thesis using Cons.prems out [of a'] by auto
  qed simp
qed

text \<open>
  Claim C4.  For a sampler constructed from \<open>parts\<close> and every number of samples,
  \<^verbatim>\<open>sample_edges\<close> returns that many pairs, and each pair \<open>(closer, farther)\<close>
  has its closer node in a partition of strictly smaller index than the partition of
  its farther node (so the indices differ and closer's is at most farther's); when the
  partitions are disjoint no partition holds both nodes.
\<close>

theorem sample_edges_ordered:
  assumes "CompleteKPartiteGraph_init parts = Inr g"
  shows "\<exists>js ks r'. sample_edges g size' r = (Inr (js, ks), r')
           \<and> length js = size' \<and> length ks = size'
           \<and> (\<forall>t<size'. \<exists>a b. a < b \<and> b < length parts
                  \<and> js ! t \<in> set (parts ! a) \<and> ks ! t \<in> set (parts ! b)
                  \<and> (distinct (concat parts) \<longrightarrow>
                       (\<forall>q<length parts. \<not> (js ! t \<in> set (parts ! q) \<and> ks ! t \<in> set (parts ! q)))))"
proof -
  from sample_edges_ok [OF assms, of size' r] obtain jd kd where
    s: "sample_edges g size' r
          = (Inr (map (\<lambda>t. nodes g ! t) jd, map (\<lambda>t. nodes g ! t) kd), \<lambda>t. r (t + size' + size'))"
    and jl: "length jd = size'" and kl: "length kd = size'"
    and m: "\<forall>t<size'. jd ! t < kd ! t \<and> kd ! t < total g
                \<and> partition_of parts (jd ! t) \<noteq> partition_of parts (kd ! t)"
    by blast
  note u = init_unfold [OF assms]
  have "\<exists>a b. a < b \<and> b < length parts
          \<and> map (\<lambda>t. nodes g ! t) jd ! t \<in> set (parts ! a)
          \<and> map (\<lambda>t. nodes g ! t) kd ! t \<in> set (parts ! b)
          \<and> (distinct (concat parts) \<longrightarrow>
               (\<forall>q<length parts. \<not> (map (\<lambda>t. nodes g ! t) jd ! t \<in> set (parts ! q)
                                      \<and> map (\<lambda>t. nodes g ! t) kd ! t \<in> set (parts ! q))))"
    if t: "t < size'" for t
  proof -
    let ?a = "partition_of parts (jd ! t)" and ?b = "partition_of parts (kd ! t)"
    from m t have lt: "jd ! t < kd ! t" and kt: "kd ! t < length (concat parts)"
      and ne: "?a \<noteq> ?b"
      using u(5) by auto
    have jt: "jd ! t < length (concat parts)" using lt kt by simp
    have "?a \<le> ?b" using partition_of_mono [of "jd ! t" "kd ! t" parts] lt by simp
    then have ab: "?a < ?b" using ne by simp
    have b: "?b < length parts" by (rule partition_of_less [OF kt])
    have ja: "nodes g ! (jd ! t) \<in> set (parts ! ?a)"
      unfolding u(6) by (rule partition_of_member [OF jt])
    have kb: "nodes g ! (kd ! t) \<in> set (parts ! ?b)"
      unfolding u(6) by (rule partition_of_member [OF kt])
    have "\<not> (nodes g ! (jd ! t) \<in> set (parts ! q) \<and> nodes g ! (kd ! t) \<in> set (parts ! q))"
      if d: "distinct (concat parts)" and q: "q < length parts" for q
    proof
      assume c: "nodes g ! (jd ! t) \<in> set (parts ! q) \<and> nodes g ! (kd ! t) \<in> set (parts ! q)"
      have "?a = q" using disjoint_partitions [OF d _ q ja] c ab b by simp
      moreover have "?b = q" using disjoint_partitions [OF d b q kb] c by simp
      ultimately show False using ne by simp
    qed
    then show ?thesis
      using ab b ja kb t jl kl by (intro exI [of _ ?a] exI [of _ ?b]) simp
  qed
  then show ?thesis using s jl kl by simp
qed

lemma small_sampler_constructed:
  "case CompleteKPartiteGraph_init [[1, 3], [0, 4, 7], [9]] of
     Inl e \<Rightarrow> False
   | Inr g \<Rightarrow> total g = 6 \<and> out_degrees g = [4, 4, 3, 3, 3, 5]
        \<and> start_i g = [0, 0, 2, 2, 2, 5] \<and> n_i g = [2, 2, 3, 3, 3, 1]
        \<and> nodes g = [1, 3, 0, 4, 7, 9]
        \<and> p g = [2 / 11, 2 / 11, 3 / 22, 3 / 22, 3 / 22, 5 / 22]"
  by (simp add: CompleteKPartiteGraph_init_def cumsum_def)

lemma small_sampler_sample:
  "case CompleteKPartiteGraph_init [[1, 3], [0, 4, 7], [9]] of
     Inl e \<Rightarrow> False
   | Inr g \<Rightarrow> fst (sample_edges g 3 (\<lambda>t. 9 / 10 - real t / 7)) = Inr ([0, 1, 1], [9, 7, 4])"
  by (simp add: CompleteKPartiteGraph_init_def cumsum_def sample_edges_def draw_edges_def
      random_choice_def random_randint_def random_sample_def index_array_def skip_own_def
      swap_wrong_order_def frac_def
      upt_rec [of _ "numeral _"] upt_rec [of _ "Suc _"])

theorem sample_edges_ordered_witness:
  "\<exists>g js ks r'. CompleteKPartiteGraph_init [[1, 3], [0, 4, 7], [9]] = Inr g
      \<and> sample_edges g 3 (\<lambda>t. 9 / 10 - real t / 7) = (Inr (js, ks), r')
      \<and> js = [0, 1, 1] \<and> ks = [9, 7, 4]
      \<and> (\<exists>a b. a < b \<and> b < length [[1, 3], [0, 4, 7], [9::nat]]
             \<and> js ! 2 \<in> set ([[1, 3], [0, 4, 7], [9]] ! a)
             \<and> ks ! 2 \<in> set ([[1, 3], [0, 4, 7], [9]] ! b))"
proof -
  from small_sampler_sample obtain g where
    g: "CompleteKPartiteGraph_init [[1, 3], [0, 4, 7], [9]] = Inr g"
    and s: "fst (sample_edges g 3 (\<lambda>t. 9 / 10 - real t / 7)) = Inr ([0, 1, 1], [9, 7, 4])"
    by (auto split: sum.splits)
  from sample_edges_ordered [OF g, of 3 "\<lambda>t. 9 / 10 - real t / 7"] obtain js ks r' where
    e: "sample_edges g 3 (\<lambda>t. 9 / 10 - real t / 7) = (Inr (js, ks), r')"
    and o: "\<forall>t<3. \<exists>a b. a < b \<and> b < length [[1, 3], [0, 4, 7], [9::nat]]
                  \<and> js ! t \<in> set ([[1, 3], [0, 4, 7], [9]] ! a)
                  \<and> ks ! t \<in> set ([[1, 3], [0, 4, 7], [9]] ! b)
                  \<and> (distinct (concat [[1, 3], [0, 4, 7], [9::nat]]) \<longrightarrow>
                       (\<forall>q<length [[1, 3], [0, 4, 7], [9::nat]].
                          \<not> (js ! t \<in> set ([[1, 3], [0, 4, 7], [9]] ! q)
                             \<and> ks ! t \<in> set ([[1, 3], [0, 4, 7], [9]] ! q))))"
    by (elim exE conjE)
  have "(2::nat) < 3" by simp
  from o [rule_format, OF this]
  have x: "\<exists>a b. a < b \<and> b < length [[1, 3], [0, 4, 7], [9::nat]]
             \<and> js ! 2 \<in> set ([[1, 3], [0, 4, 7], [9]] ! a)
             \<and> ks ! 2 \<in> set ([[1, 3], [0, 4, 7], [9]] ! b)"
    by (elim exE conjE) (intro exI conjI, assumption+)
  have y: "js = [0, 1, 1]" "ks = [9, 7, 4]"
    using e s by simp_all
  show ?thesis
    apply (rule exI [of _ g], rule exI [of _ js], rule exI [of _ ks], rule exI [of _ r'])
    using g e y x by (intro conjI) assumption+
qed

section \<open>The distribution of the sampled edges\<close>

lemma skip_own_bij:
  assumes "start + n \<le> T"
  shows "bij_betw (skip_own start n) {0..<T - n} ({0..<T} - {start..<start + n})"
  unfolding bij_betw_def
proof
  show "inj_on (skip_own start n) {0..<T - n}"
    by (auto simp: inj_on_def skip_own_def split: if_splits)
  show "skip_own start n ` {0..<T - n} = {0..<T} - {start..<start + n}"
  proof (intro equalityI subsetI)
    fix k assume "k \<in> skip_own start n ` {0..<T - n}"
    then show "k \<in> {0..<T} - {start..<start + n}"
      by (auto simp: skip_own_def split: if_splits)
  next
    fix k assume k: "k \<in> {0..<T} - {start..<start + n}"
    show "k \<in> skip_own start n ` {0..<T - n}"
    proof (cases "k < start")
      case True
      then have "skip_own start n k = k" and "k \<in> {0..<T - n}"
        using assms by (auto simp: skip_own_def)
      then show ?thesis by (metis imageI)
    next
      case False
      with k have "start + n \<le> k" and "k < T" by auto
      then have "skip_own start n (k - n) = k" and "k - n \<in> {0..<T - n}"
        by (auto simp: skip_own_def)
      then show ?thesis by (metis imageI)
    qed
  qed
qed

lemma offset_of_Suc:
  "q < length parts \<Longrightarrow> offset_of parts (Suc q) = offset_of parts q + length (parts ! q)"
  by (simp add: offset_of_def take_Suc_conv_app_nth)

lemma offset_of_le: "offset_of parts q \<le> length (concat parts)"
proof -
  have "sum_list (map length parts)
          = sum_list (map length (take q parts)) + sum_list (map length (drop q parts))"
    by (metis append_take_drop_id map_append sum_list_append)
  then show ?thesis by (simp add: offset_of_def length_concat)
qed

lemma block_end:
  assumes "CompleteKPartiteGraph_init parts = Inr g" and "j < total g"
  shows "start_i g ! j + n_i g ! j \<le> total g"
proof -
  note e = init_entries [OF assms] and u = init_unfold [OF assms(1)]
  have "offset_of parts (Suc (partition_of parts j)) \<le> length (concat parts)"
    by (rule offset_of_le)
  then show ?thesis
    using offset_of_Suc [OF e(8)] e(1,2) u(5) by simp
qed

lemma other_partitions:
  assumes "CompleteKPartiteGraph_init parts = Inr g" and "j < total g"
  shows "{k. k < total g \<and> partition_of parts k \<noteq> partition_of parts j}
           = {0..<total g} - {start_i g ! j..<start_i g ! j + n_i g ! j}"
proof -
  note e = init_entries [OF assms] and u = init_unfold [OF assms(1)]
  have "partition_of parts k = partition_of parts j \<longleftrightarrow>
          start_i g ! j \<le> k \<and> k < start_i g ! j + n_i g ! j" if "k < total g" for k
    using same_partition_iff [of j parts k] that assms(2) e(1,2) u(5) by simp
  then show ?thesis by auto
qed

lemma remap_bij:
  assumes "CompleteKPartiteGraph_init parts = Inr g" and "j < total g"
  shows "bij_betw (skip_own (start_i g ! j) (n_i g ! j)) {0..<out_degrees g ! j}
           {k. k < total g \<and> partition_of parts k \<noteq> partition_of parts j}"
  unfolding other_partitions [OF assms] init_entries(3) [OF assms]
  by (rule skip_own_bij [OF block_end [OF assms]])

lemma cross_pairs_card:
  assumes "CompleteKPartiteGraph_init parts = Inr g"
  shows "sum_list (out_degrees g)
           = card {(a, b). a < total g \<and> b < total g
                     \<and> partition_of parts a \<noteq> partition_of parts b}"
proof -
  let ?B = "\<lambda>a. {b. b < total g \<and> partition_of parts b \<noteq> partition_of parts a}"
  have c: "card (?B a) = out_degrees g ! a" if "a < total g" for a
    using bij_betw_same_card [OF remap_bij [OF assms that]] by simp
  have "{(a, b). a < total g \<and> b < total g \<and> partition_of parts a \<noteq> partition_of parts b}
          = (SIGMA a:{0..<total g}. ?B a)"
    by auto
  moreover have "card (SIGMA a:{0..<total g}. ?B a) = (\<Sum>a\<in>{0..<total g}. card (?B a))"
    by (intro card_SigmaI) auto
  moreover have "(\<Sum>a\<in>{0..<total g}. card (?B a)) = (\<Sum>a\<in>{0..<total g}. out_degrees g ! a)"
    by (intro sum.cong) (auto simp: c)
  moreover have "sum_list (out_degrees g) = (\<Sum>a\<in>{0..<total g}. out_degrees g ! a)"
    using init_lengths(4) [OF assms] by (simp add: sum_list_sum_nth)
  ultimately show ?thesis by simp
qed

lemma rank_of_skip_own:
  "skip_own start n k0 = k \<Longrightarrow> (if k < start then k else k - n) = k0"
  by (auto simp: skip_own_def split: if_splits)

lemma skip_own_of_rank:
  "\<not> (start \<le> k \<and> k < start + n) \<Longrightarrow> skip_own start n (if k < start then k else k - n) = k"
  by (auto simp: skip_own_def)

lemma sample_edges_draw:
  assumes "CompleteKPartiteGraph_init parts = Inr g"
    and "draw_edges g size' r = (Inr (js, ks), r')"
  shows "sample_edges g size' r
           = (Inr (map (\<lambda>jk. nodes g ! fst (swap_wrong_order jk)) (zip js ks),
                   map (\<lambda>jk. nodes g ! snd (swap_wrong_order jk)) (zip js ks)), r')"
proof -
  note l = init_lengths [OF assms(1)] and e = init_entries [OF assms(1)]
  from draw_edges_ok [OF assms(1), of size' r] assms(2) obtain rk where
    ks: "ks = map (\<lambda>(j, k). skip_own (start_i g ! j) (n_i g ! j) k) (zip js rk)"
    and jl: "length js = size'" and kl: "length rk = size'"
    and jt: "\<forall>t<size'. js ! t < total g \<and> rk ! t < out_degrees g ! (js ! t)"
    by auto
  have ksl: "length ks = size'" using ks jl kl by simp
  have both: "js ! t < total g \<and> ks ! t < total g" if t: "t < size'" for t
  proof -
    have jt': "js ! t < total g" using jt t by simp
    have "rk ! t < total g - n_i g ! (js ! t)" using jt t e(3) [OF jt'] by auto
    from skip_own_outside(1) [OF this e(4) [OF jt'], of "start_i g ! (js ! t)"]
    show ?thesis using jt' t jl kl unfolding ks by simp
  qed
  have sw: "fst (swap_wrong_order (a, b)) < m \<and> snd (swap_wrong_order (a, b)) < m"
    if "a < m" "b < m" for a b m :: nat
    using that by (simp add: swap_wrong_order_def)
  have in1: "\<forall>t<length (map fst (map swap_wrong_order (zip js ks))).
               map fst (map swap_wrong_order (zip js ks)) ! t < length (nodes g)"
    using both sw jl ksl l(1) by simp
  have in2: "\<forall>t<length (map snd (map swap_wrong_order (zip js ks))).
               map snd (map swap_wrong_order (zip js ks)) ! t < length (nodes g)"
    using both sw jl ksl l(1) by simp
  show ?thesis
    unfolding sample_edges_def assms(2)
    using index_array_ok [OF in1] index_array_ok [OF in2]
    by (simp add: Let_def comp_def)
qed

text \<open>
  Claim C3.  For a sampler constructed from \<open>parts\<close> and a dense index \<open>j\<close>: the
  out-degree of \<open>j\<close> is the total minus the size of its own partition; the weight of
  \<open>j\<close> handed to \<^verbatim>\<open>np.random.choice\<close> is its out-degree over the sum of the
  out-degrees; and the rank remap is a bijection from the ranks below the out-degree onto
  the dense indices outside the partition of \<open>j\<close>.  For every number of samples and
  every random state the edges that \<^verbatim>\<open>sample_edges\<close> returns are the drawn pairs,
  swapped into order and translated; and sample \<open>t\<close> draws the pair \<open>(j, k)\<close> exactly
  when \<open>k\<close> lies in another partition, the uniform variate of the choice lies in an
  interval of length \<open>p[j]\<close> and the uniform variate of the rank lies in an interval of
  length \<open>1 / out_degrees[j]\<close>.  Both intervals lie in \<open>[0, 1)\<close>, so the pair is drawn
  with probability \<open>p[j] * (1 / out_degrees[j])\<close>, which is one over the number of
  ordered cross-partition pairs, the same for every such pair.
\<close>

theorem sample_edges_uniform:
  assumes "CompleteKPartiteGraph_init parts = Inr g" and "j < total g"
  shows "out_degrees g ! j = total g - length (parts ! partition_of parts j)
       \<and> p g ! j = real (out_degrees g ! j) / real (sum_list (out_degrees g))
       \<and> bij_betw (skip_own (start_i g ! j) (n_i g ! j)) {0..<out_degrees g ! j}
            {k. k < total g \<and> partition_of parts k \<noteq> partition_of parts j}
       \<and> sum_list (out_degrees g)
            = card {(a, b). a < total g \<and> b < total g
                      \<and> partition_of parts a \<noteq> partition_of parts b}
       \<and> (\<forall>size' r. \<exists>js ks r'.
              draw_edges g size' r = (Inr (js, ks), r')
            \<and> sample_edges g size' r
                = (Inr (map (\<lambda>jk. nodes g ! fst (swap_wrong_order jk)) (zip js ks),
                        map (\<lambda>jk. nodes g ! snd (swap_wrong_order jk)) (zip js ks)), r')
            \<and> length js = size' \<and> length ks = size'
            \<and> (\<forall>t<size'. \<forall>k<total g.
                  (js ! t = j \<and> ks ! t = k) \<longleftrightarrow>
                  (partition_of parts k \<noteq> partition_of parts j
                   \<and> sum_list (take j (p g)) \<le> frac (r t)
                   \<and> frac (r t) < sum_list (take j (p g)) + p g ! j
                   \<and> real (if k < start_i g ! j then k else k - n_i g ! j)
                        / real (out_degrees g ! j) \<le> frac (r (size' + t))
                   \<and> frac (r (size' + t))
                        < real (if k < start_i g ! j then k else k - n_i g ! j)
                            / real (out_degrees g ! j) + 1 / real (out_degrees g ! j))))
       \<and> (\<forall>k<total g. partition_of parts k \<noteq> partition_of parts j \<longrightarrow>
              0 \<le> sum_list (take j (p g)) \<and> sum_list (take j (p g)) + p g ! j \<le> 1
            \<and> real (if k < start_i g ! j then k else k - n_i g ! j)
                 / real (out_degrees g ! j) + 1 / real (out_degrees g ! j) \<le> 1
            \<and> p g ! j * (1 / real (out_degrees g ! j))
                = 1 / real (card {(a, b). a < total g \<and> b < total g
                                    \<and> partition_of parts a \<noteq> partition_of parts b}))"
proof -
  note l = init_lengths [OF assms(1)] and e = init_entries [OF assms]
    and pr = init_probabilities [OF assms(1)]
    and b = remap_bij [OF assms] and o = other_partitions [OF assms]
    and c = cross_pairs_card [OF assms(1)]
  let ?s = "start_i g ! j" and ?n = "n_i g ! j" and ?d = "out_degrees g ! j"
  let ?rank = "\<lambda>k. if k < ?s then k else k - ?n"
  have 1: "out_degrees g ! j = total g - length (parts ! partition_of parts j)"
    using e(1,3) by simp
  have 2: "p g ! j = real ?d / real (sum_list (out_degrees g))"
    by (rule pr(3) [OF assms(2)])
  have pos: "\<forall>t<length (p g). 0 < p g ! t" using pr(4) l(5) by simp
  have jl: "j < length (p g)" using assms(2) l(5) by simp
  have S: "sum_list (take (Suc j) (p g)) = sum_list (take j (p g)) + p g ! j"
    by (rule partial_sum_Suc [OF jl])
  have cross: "partition_of parts k \<noteq> partition_of parts j \<longleftrightarrow> \<not> (?s \<le> k \<and> k < ?s + ?n)"
    if "k < total g" for k
    using same_partition_iff [of j parts k] that assms(2) e(1,2) init_unfold(5) [OF assms(1)]
    by simp
  have rank_lt: "?rank k < ?d"
    if k: "k < total g" and x: "partition_of parts k \<noteq> partition_of parts j" for k
  proof -
    from b have "skip_own ?s ?n ` {0..<?d}
        = {k. k < total g \<and> partition_of parts k \<noteq> partition_of parts j}"
      by (simp add: bij_betw_def)
    then have "k \<in> skip_own ?s ?n ` {0..<?d}" using k x by simp
    then obtain k0 where "k0 \<in> {0..<?d}" and "k = skip_own ?s ?n k0" by (rule imageE)
    then show ?thesis using rank_of_skip_own [of ?s ?n k0 k] by simp
  qed
  have 5: "\<exists>js ks r'.
              draw_edges g size' r = (Inr (js, ks), r')
            \<and> sample_edges g size' r
                = (Inr (map (\<lambda>jk. nodes g ! fst (swap_wrong_order jk)) (zip js ks),
                        map (\<lambda>jk. nodes g ! snd (swap_wrong_order jk)) (zip js ks)), r')
            \<and> length js = size' \<and> length ks = size'
            \<and> (\<forall>t<size'. \<forall>k<total g.
                  (js ! t = j \<and> ks ! t = k) \<longleftrightarrow>
                  (partition_of parts k \<noteq> partition_of parts j
                   \<and> sum_list (take j (p g)) \<le> frac (r t)
                   \<and> frac (r t) < sum_list (take j (p g)) + p g ! j
                   \<and> real (?rank k) / real ?d \<le> frac (r (size' + t))
                   \<and> frac (r (size' + t)) < real (?rank k) / real ?d + 1 / real ?d))"
    for size' r
  proof -
    from draw_edges_ok [OF assms(1), of size' r] obtain js rk where
      d: "draw_edges g size' r
            = (Inr (js, map (\<lambda>(j, k). skip_own (start_i g ! j) (n_i g ! j) k) (zip js rk)),
               \<lambda>t. r (t + size' + size'))"
      and jsl: "length js = size'" and rkl: "length rk = size'"
      and dt: "\<forall>t<size'. js ! t < total g \<and> rk ! t < out_degrees g ! (js ! t)
                \<and> (\<forall>j0<total g. js ! t = j0 \<longleftrightarrow>
                      sum_list (take j0 (p g)) \<le> frac (r t) \<and>
                      frac (r t) < sum_list (take (Suc j0) (p g)))
                \<and> (\<forall>k0. rk ! t = k0 \<longleftrightarrow>
                      real k0 / real (out_degrees g ! (js ! t)) \<le> frac (r (size' + t)) \<and>
                      frac (r (size' + t)) < (real k0 + 1) / real (out_degrees g ! (js ! t)))"
      by blast
    let ?ks = "map (\<lambda>(j, k). skip_own (start_i g ! j) (n_i g ! j) k) (zip js rk)"
    have ksn: "?ks ! t = skip_own (start_i g ! (js ! t)) (n_i g ! (js ! t)) (rk ! t)"
      if "t < size'" for t
      using that jsl rkl by simp
    have iff: "(js ! t = j \<and> ?ks ! t = k) \<longleftrightarrow>
                  (partition_of parts k \<noteq> partition_of parts j
                   \<and> sum_list (take j (p g)) \<le> frac (r t)
                   \<and> frac (r t) < sum_list (take j (p g)) + p g ! j
                   \<and> real (?rank k) / real ?d \<le> frac (r (size' + t))
                   \<and> frac (r (size' + t)) < real (?rank k) / real ?d + 1 / real ?d)"
      if t: "t < size'" and k: "k < total g" for t k
    proof -
      from dt t have rt: "rk ! t < out_degrees g ! (js ! t)"
        and ji: "js ! t = j \<longleftrightarrow>
                   sum_list (take j (p g)) \<le> frac (r t) \<and>
                   frac (r t) < sum_list (take j (p g)) + p g ! j"
        and ri: "\<And>k0. rk ! t = k0 \<longleftrightarrow>
                   real k0 / real (out_degrees g ! (js ! t)) \<le> frac (r (size' + t)) \<and>
                   frac (r (size' + t)) < (real k0 + 1) / real (out_degrees g ! (js ! t))"
        using assms(2) S by auto
      have frac_add: "(real k0 + 1) / real ?d = real k0 / real ?d + 1 / real ?d" for k0
        by (simp add: add_divide_distrib)
      show ?thesis
      proof
        assume a: "js ! t = j \<and> ?ks ! t = k"
        from a have j': "js ! t = j" by (rule conjunct1)
        from a have kk: "?ks ! t = k" by (rule conjunct2)
        have sk: "skip_own ?s ?n (rk ! t) = k" using kk unfolding ksn [OF t] j' .
        have "rk ! t < ?d" using rt unfolding j' .
        then have "rk ! t < total g - ?n" using e(3) by simp
        from skip_own_outside(2) [OF this e(4), of ?s] sk
        have x: "partition_of parts k \<noteq> partition_of parts j" using cross [OF k] by simp
        have "rk ! t = ?rank k" using rank_of_skip_own [OF sk] by simp
        then have "real (?rank k) / real ?d \<le> frac (r (size' + t)) \<and>
                   frac (r (size' + t)) < real (?rank k) / real ?d + 1 / real ?d"
          using ri [of "?rank k"] frac_add unfolding j' by simp
        then show "partition_of parts k \<noteq> partition_of parts j
                   \<and> sum_list (take j (p g)) \<le> frac (r t)
                   \<and> frac (r t) < sum_list (take j (p g)) + p g ! j
                   \<and> real (?rank k) / real ?d \<le> frac (r (size' + t))
                   \<and> frac (r (size' + t)) < real (?rank k) / real ?d + 1 / real ?d"
          using x j' ji by blast
      next
        assume a: "partition_of parts k \<noteq> partition_of parts j
                   \<and> sum_list (take j (p g)) \<le> frac (r t)
                   \<and> frac (r t) < sum_list (take j (p g)) + p g ! j
                   \<and> real (?rank k) / real ?d \<le> frac (r (size' + t))
                   \<and> frac (r (size' + t)) < real (?rank k) / real ?d + 1 / real ?d"
        then have j': "js ! t = j" using ji by blast
        have "rk ! t = ?rank k" using ri [of "?rank k"] a frac_add unfolding j' by simp
        moreover have "skip_own ?s ?n (?rank k) = k"
          using a cross [OF k] by (intro skip_own_of_rank) simp
        ultimately have "?ks ! t = k" unfolding ksn [OF t] j' by simp
        then show "js ! t = j \<and> ?ks ! t = k" using j' by (intro conjI)
      qed
    qed
    show ?thesis
      apply (rule exI [of _ js], rule exI [of _ ?ks], rule exI [of _ "\<lambda>t. r (t + size' + size')"])
      using d sample_edges_draw [OF assms(1) d] jsl rkl iff by simp
  qed
  have 6: "0 \<le> sum_list (take j (p g)) \<and> sum_list (take j (p g)) + p g ! j \<le> 1
            \<and> real (?rank k) / real ?d + 1 / real ?d \<le> 1
            \<and> p g ! j * (1 / real ?d)
                = 1 / real (card {(a, b). a < total g \<and> b < total g
                                    \<and> partition_of parts a \<noteq> partition_of parts b})"
    if k: "k < total g" and x: "partition_of parts k \<noteq> partition_of parts j" for k
  proof -
    have "sum_list (take 0 (p g)) \<le> sum_list (take j (p g))"
      using jl by (intro partial_sum_mono [OF pos]) simp_all
    then have lo: "0 \<le> sum_list (take j (p g))" by simp
    have "sum_list (take (Suc j) (p g)) \<le> sum_list (take (length (p g)) (p g))"
      using jl by (intro partial_sum_mono [OF pos]) simp_all
    then have hi: "sum_list (take j (p g)) + p g ! j \<le> 1" using S pr(2) by simp
    have "real (?rank k) + 1 \<le> real ?d" using rank_lt [OF k x] by linarith
    then have "(real (?rank k) + 1) / real ?d \<le> 1" using e(5) by simp
    then have rk: "real (?rank k) / real ?d + 1 / real ?d \<le> 1"
      by (simp add: add_divide_distrib)
    have "p g ! j * (1 / real ?d) = 1 / real (sum_list (out_degrees g))"
      unfolding 2 using e(5) by simp
    then show ?thesis using lo hi rk c by simp
  qed
  show ?thesis using 1 2 b c 5 6 by blast
qed

theorem sample_edges_uniform_witness:
  "\<exists>g js ks r'. CompleteKPartiteGraph_init [[1, 3], [0, 4, 7], [9]] = Inr g
      \<and> out_degrees g ! 2 = 3
      \<and> p g ! 2 = 3 / 22
      \<and> draw_edges g 1 (\<lambda>t. 2 / 5 + real t * 7 / 20) = (Inr (js, ks), r')
      \<and> js = [2] \<and> ks = [5]
      \<and> sample_edges g 1 (\<lambda>t. 2 / 5 + real t * 7 / 20) = (Inr ([0], [9]), r')"
proof -
  from small_sampler_constructed obtain g where
    g: "CompleteKPartiteGraph_init [[1, 3], [0, 4, 7], [9]] = Inr g"
    and t: "total g = 6" and od: "out_degrees g = [4, 4, 3, 3, 3, 5]"
    and st: "start_i g = [0, 0, 2, 2, 2, 5]" and ni: "n_i g = [2, 2, 3, 3, 3, 1]"
    and pg: "p g = [2 / 11, 2 / 11, 3 / 22, 3 / 22, 3 / 22, 5 / 22]"
    and nd: "nodes g = [1, 3, 0, 4, 7, 9]"
    by (auto split: sum.splits)
  have lt: "2 < total g" using t by simp
  note u = sample_edges_uniform [OF g lt]
  have a: "p g ! 2 = real (out_degrees g ! 2) / real (sum_list (out_degrees g))"
    by (rule u [THEN conjunct2, THEN conjunct1])
  note d = u [THEN conjunct2, THEN conjunct2, THEN conjunct2, THEN conjunct2, THEN conjunct1,
      rule_format, of 1 "\<lambda>t. 2 / 5 + real t * 7 / 20"]
  from d obtain js ks r' where
    dr: "draw_edges g 1 (\<lambda>t. 2 / 5 + real t * 7 / 20) = (Inr (js, ks), r')"
    and se: "sample_edges g 1 (\<lambda>t. 2 / 5 + real t * 7 / 20)
                = (Inr (map (\<lambda>jk. nodes g ! fst (swap_wrong_order jk)) (zip js ks),
                        map (\<lambda>jk. nodes g ! snd (swap_wrong_order jk)) (zip js ks)), r')"
    and jl: "length js = 1" and kl: "length ks = 1"
    and iff: "\<forall>t<1. \<forall>k<total g.
                  (js ! t = 2 \<and> ks ! t = k) \<longleftrightarrow>
                  (partition_of [[1, 3], [0, 4, 7], [9]] k \<noteq> partition_of [[1, 3], [0, 4, 7], [9]] 2
                   \<and> sum_list (take 2 (p g)) \<le> frac (2 / 5 + real t * 7 / 20)
                   \<and> frac (2 / 5 + real t * 7 / 20) < sum_list (take 2 (p g)) + p g ! 2
                   \<and> real (if k < start_i g ! 2 then k else k - n_i g ! 2)
                        / real (out_degrees g ! 2) \<le> frac (2 / 5 + real (1 + t) * 7 / 20)
                   \<and> frac (2 / 5 + real (1 + t) * 7 / 20)
                        < real (if k < start_i g ! 2 then k else k - n_i g ! 2)
                            / real (out_degrees g ! 2) + 1 / real (out_degrees g ! 2))"
    by (elim exE conjE)
  have f0: "frac (2 / 5 :: real) = 2 / 5" and f1: "frac (3 / 4 :: real) = 3 / 4"
    by (simp_all add: frac_def)
  have "js ! 0 = 2 \<and> ks ! 0 = 5"
    using iff [rule_format, of 0 5] unfolding t od st ni pg
    by (simp add: f0 f1)
  then have 5: "js = [2]" and 6: "ks = [5]"
    using jl kl by (cases js; cases ks; simp)+
  have 7: "sample_edges g 1 (\<lambda>t. 2 / 5 + real t * 7 / 20) = (Inr ([0], [9]), r')"
    using se unfolding 5 6 nd by (simp add: swap_wrong_order_def)
  have 1: "out_degrees g ! 2 = 3" using od by simp
  have 2: "p g ! 2 = 3 / 22" unfolding pg by simp
  show ?thesis
    apply (rule exI [of _ g], rule exI [of _ js], rule exI [of _ ks], rule exI [of _ r'])
    using g 1 2 dr 5 6 7 by (intro conjI) assumption+
qed

section \<open>The constructed graph\<close>

lemma build_neighborhoods:
  assumes "foldE (build_neighborhood sets) [0..<m] (replicate n None) = Inr nb" and "m \<le> n"
  shows "length nb = n \<and>
         (\<forall>i<m. \<exists>ls. sets i = Some ls \<and>
            (3 \<le> length ls \<longrightarrow>
                (\<exists>s. CompleteKPartiteGraph_init (drop 1 ls) = Inr s \<and> nb ! i = Some s)) \<and>
             (\<not> 3 \<le> length ls \<longrightarrow> nb ! i = None)) \<and>
         (\<forall>i. m \<le> i \<and> i < n \<longrightarrow> nb ! i = None)"
  using assms
proof (induction m arbitrary: nb)
  case 0
  then show ?case by auto
next
  case (Suc m)
  from Suc.prems(1) obtain nb0 where
    f: "foldE (build_neighborhood sets) [0..<m] (replicate n None) = Inr nb0"
    and b: "build_neighborhood sets nb0 m = Inr nb"
    by (auto simp: foldE_append split: sum.splits)
  from Suc.IH [OF f] Suc.prems(2)
  have len: "length nb0 = n"
    and old: "\<forall>i<m. \<exists>ls. sets i = Some ls \<and>
            (3 \<le> length ls \<longrightarrow>
                (\<exists>s. CompleteKPartiteGraph_init (drop 1 ls) = Inr s \<and> nb0 ! i = Some s)) \<and>
             (\<not> 3 \<le> length ls \<longrightarrow> nb0 ! i = None)"
    and rest: "\<forall>i. m \<le> i \<and> i < n \<longrightarrow> nb0 ! i = None"
    by auto
  from b obtain ls where ls: "sets m = Some ls"
    by (auto simp: build_neighborhood_def split: option.splits)
  show ?case
  proof (cases "3 \<le> length ls")
    case True
    with b ls obtain s where s: "CompleteKPartiteGraph_init (drop 1 ls) = Inr s"
      and nb: "nb = nb0[m := Some s]"
      by (auto simp: build_neighborhood_def split: sum.splits if_splits)
    show ?thesis
    proof (intro conjI allI impI)
      show "length nb = n" using nb len by simp
    next
      fix i assume "i < Suc m"
      then consider "i < m" | "i = m" by linarith
      then show "\<exists>ls. sets i = Some ls \<and>
            (3 \<le> length ls \<longrightarrow>
                (\<exists>s. CompleteKPartiteGraph_init (drop 1 ls) = Inr s \<and> nb ! i = Some s)) \<and>
             (\<not> 3 \<le> length ls \<longrightarrow> nb ! i = None)"
      proof cases
        case 1
        then show ?thesis using old nb by simp
      next
        case 2
        then show ?thesis using ls True s nb len Suc.prems(2) by simp
      qed
    next
      fix i assume "Suc m \<le> i \<and> i < n"
      then show "nb ! i = None" using rest nb by simp
    qed
  next
    case False
    with b ls have nb: "nb = nb0" by (auto simp: build_neighborhood_def)
    show ?thesis
    proof (intro conjI allI impI)
      show "length nb = n" using nb len by simp
    next
      fix i assume "i < Suc m"
      then consider "i < m" | "i = m" by linarith
      then show "\<exists>ls. sets i = Some ls \<and>
            (3 \<le> length ls \<longrightarrow>
                (\<exists>s. CompleteKPartiteGraph_init (drop 1 ls) = Inr s \<and> nb ! i = Some s)) \<and>
             (\<not> 3 \<le> length ls \<longrightarrow> nb ! i = None)"
      proof cases
        case 1
        then show ?thesis using old nb by simp
      next
        case 2
        then show ?thesis using ls False rest nb Suc.prems(2) by simp
      qed
    next
      fix i assume "Suc m \<le> i \<and> i < n"
      then show "nb ! i = None" using rest nb by simp
    qed
  qed
qed

lemma graph_unfold:
  assumes "AttributedGraph_init A X z K = Inr g"
  shows "level_sets A K = Inr (graph_level_sets g)"
    and "graph_A g = A"
    and "level_counts g = (\<lambda>node. map_option (map (\<lambda>s. int (length s))) (graph_level_sets g node))"
    and "length (neighborhoods g) = shape0 A"
    and "\<And>i. i < shape0 A \<Longrightarrow> \<exists>ls. graph_level_sets g i = Some ls \<and>
            (3 \<le> length ls \<longrightarrow>
                (\<exists>s. CompleteKPartiteGraph_init (drop 1 ls) = Inr s \<and> neighborhoods g ! i = Some s)) \<and>
             (\<not> 3 \<le> length ls \<longrightarrow> neighborhoods g ! i = None)"
proof -
  from assms obtain sets ws nb where
    ls: "level_sets A K = Inr sets"
    and nb: "foldE (build_neighborhood sets) [0..<shape0 A] (replicate (shape0 A) None) = Inr nb"
    and g: "g = \<lparr>graph_A = A, graph_X = X, graph_z = z, graph_level_sets = sets,
                 level_counts = (\<lambda>node. map_option (map (\<lambda>s. int (length s))) (sets node)),
                 loss_weights = ws, neighborhoods = nb\<rparr>"
    unfolding AttributedGraph_init_def by (auto simp: Let_def split: sum.splits)
  note b = build_neighborhoods [OF nb order_refl]
  show "level_sets A K = Inr (graph_level_sets g)" using ls g by simp
  show "graph_A g = A" using g by simp
  show "level_counts g = (\<lambda>node. map_option (map (\<lambda>s. int (length s))) (graph_level_sets g node))"
    using g by simp
  show "length (neighborhoods g) = shape0 A" using b g by simp
  show "\<exists>ls. graph_level_sets g i = Some ls \<and>
            (3 \<le> length ls \<longrightarrow>
                (\<exists>s. CompleteKPartiteGraph_init (drop 1 ls) = Inr s \<and> neighborhoods g ! i = Some s)) \<and>
             (\<not> 3 \<le> length ls \<longrightarrow> neighborhoods g ! i = None)" if "i < shape0 A" for i
    using b that g by simp
qed

lemma eligible_nodes_constructed:
  assumes "AttributedGraph_init A X z K = Inr g"
  shows "eligible_nodes g
           = Inr (filter (\<lambda>i. 3 \<le> length (the (graph_level_sets g i))) [0..<shape0 A])"
proof -
  note u = graph_unfold [OF assms]
  have "(case level_counts g i of None \<Rightarrow> Inl KeyError | Some Ni \<Rightarrow> Inr (i, 3 \<le> length Ni))
          = Inr (i, 3 \<le> length (the (graph_level_sets g i)))"
    if "i \<in> set [0..<shape0 A]" for i
    using u(5) [of i] that unfolding u(3) by auto
  from mapE_all [of "[0..<shape0 A]" _ "\<lambda>i. (i, 3 \<le> length (the (graph_level_sets g i)))", OF this]
  show ?thesis
    unfolding eligible_nodes_def graph_nodes_def u(2) by (simp add: marked_filter)
qed

lemma small_graph_constructed:
  "case AttributedGraph_init [[0, 1, 0], [1, 0, 0], [0, 0, 0]] () () None of
     Inl e \<Rightarrow> False
   | Inr g \<Rightarrow> eligible_nodes g = Inr [0, 1]
              \<and> graph_level_sets g 0 = Some [[0], [1], [2]]
              \<and> graph_level_sets g 2 = Some [[2], [0, 1]]"
  by code_simp

text \<open>
  Claim C10.  In a constructed graph a node is eligible exactly when
  \<^verbatim>\<open>neighborhoods\<close> holds a sampler for it, and \<^verbatim>\<open>sample_two_neighbors\<close> on
  an eligible node reaches that sampler and returns its samples.
\<close>

theorem eligible_iff_sampler:
  assumes "AttributedGraph_init A X z K = Inr g"
  shows "\<exists>es. eligible_nodes g = Inr es
           \<and> (\<forall>node<shape0 A. node \<in> set es \<longleftrightarrow> neighborhoods g ! node \<noteq> None)
           \<and> (\<forall>node\<in>set es. node < length (neighborhoods g)
                \<and> (\<exists>s js ks r'. neighborhoods g ! node = Some s
                      \<and> sample_two_neighbors g node size' r = sample_edges s size' r
                      \<and> sample_edges s size' r = (Inr (js, ks), r')))"
proof -
  note u = graph_unfold [OF assms] and e = eligible_nodes_constructed [OF assms]
  let ?es = "filter (\<lambda>i. 3 \<le> length (the (graph_level_sets g i))) [0..<shape0 A]"
  have a: "node \<in> set ?es \<longleftrightarrow> neighborhoods g ! node \<noteq> None" if "node < shape0 A" for node
    using u(5) [OF that] that by auto
  have b: "node < length (neighborhoods g)
                \<and> (\<exists>s js ks r'. neighborhoods g ! node = Some s
                      \<and> sample_two_neighbors g node size' r = sample_edges s size' r
                      \<and> sample_edges s size' r = (Inr (js, ks), r'))" if "node \<in> set ?es" for node
  proof -
    from that have n: "node < shape0 A" and l: "3 \<le> length (the (graph_level_sets g node))"
      by auto
    from u(5) [OF n] l obtain ls s where ls: "graph_level_sets g node = Some ls"
      and s: "CompleteKPartiteGraph_init (drop 1 ls) = Inr s"
      and nb: "neighborhoods g ! node = Some s"
      by auto
    from sample_edges_ok [OF s, of size' r] obtain js ks r' where
      "sample_edges s size' r = (Inr (js, ks), r')" by blast
    moreover have "sample_two_neighbors g node size' r = sample_edges s size' r"
      using ls l nb n u(4) by (simp add: sample_two_neighbors_def)
    ultimately show ?thesis using nb n u(4) by auto
  qed
  show ?thesis using e a b by blast
qed

theorem eligible_iff_sampler_witness:
  "\<exists>g es. AttributedGraph_init [[0, 1, 0], [1, 0, 0], [0, 0, 0]] () () None = Inr g
      \<and> eligible_nodes g = Inr es
      \<and> (0 \<in> set es \<longleftrightarrow> neighborhoods g ! 0 \<noteq> None)
      \<and> (2 \<in> set es \<longleftrightarrow> neighborhoods g ! 2 \<noteq> None)
      \<and> es = [0, 1]"
proof -
  from small_graph_constructed obtain g where
    g: "AttributedGraph_init [[0, 1, 0], [1, 0, 0], [0, 0, 0]] () () None = Inr g"
    and e: "eligible_nodes g = Inr [0, 1]"
    by (auto split: sum.splits)
  have n: "shape0 [[0::nat, 1, 0], [1, 0, 0], [0, 0, 0]] = 3" by (simp add: shape0_def)
  from eligible_iff_sampler [OF g, of 1 "\<lambda>t. 0"] e
  have a: "\<forall>node<shape0 [[0::nat, 1, 0], [1, 0, 0], [0, 0, 0]].
          node \<in> set [0, 1] \<longleftrightarrow> neighborhoods g ! node \<noteq> None"
    by auto
  have "(0 \<in> set [0::nat, 1] \<longleftrightarrow> neighborhoods g ! 0 \<noteq> None)
     \<and> (2 \<in> set [0::nat, 1] \<longleftrightarrow> neighborhoods g ! 2 \<noteq> None)"
    using a [rule_format, of 0] a [rule_format, of 2] unfolding n by simp
  then show ?thesis using g e by blast
qed

text \<open>
  Claim C8.  In a constructed graph, for every node of the graph and every number of
  samples, \<^verbatim>\<open>sample_two_neighbors\<close> raises exactly when the node's level-set list
  has fewer than 3 shells; it then raises before drawing any random number: the
  generator state it leaves is the one it was given.
\<close>

theorem sample_two_neighbors_raises:
  assumes "AttributedGraph_init A X z K = Inr g" and "node < shape0 A"
  shows "\<exists>ls. graph_level_sets g node = Some ls
           \<and> ((\<exists>e. fst (sample_two_neighbors g node size' r) = Inl e) \<longleftrightarrow> length ls < 3)
           \<and> (length ls < 3 \<longrightarrow> sample_two_neighbors g node size' r = (Inl Exception, r))
           \<and> (\<forall>e. fst (sample_two_neighbors g node size' r) = Inl e
                 \<longrightarrow> snd (sample_two_neighbors g node size' r) = r)"
proof -
  note u = graph_unfold [OF assms(1)]
  from u(5) [OF assms(2)] obtain ls where ls: "graph_level_sets g node = Some ls"
    and yes: "3 \<le> length ls \<longrightarrow>
       (\<exists>s. CompleteKPartiteGraph_init (drop 1 ls) = Inr s \<and> neighborhoods g ! node = Some s)"
    by auto
  show ?thesis
  proof (cases "length ls < 3")
    case True
    then have "sample_two_neighbors g node size' r = (Inl Exception, r)"
      using ls by (simp add: sample_two_neighbors_def)
    then show ?thesis using ls True by simp
  next
    case False
    with yes obtain s where s: "CompleteKPartiteGraph_init (drop 1 ls) = Inr s"
      and nb: "neighborhoods g ! node = Some s"
      by auto
    from sample_edges_ok [OF s, of size' r] obtain js ks r' where
      "sample_edges s size' r = (Inr (js, ks), r')" by blast
    moreover have "sample_two_neighbors g node size' r = sample_edges s size' r"
      using ls False nb assms(2) u(4) by (simp add: sample_two_neighbors_def)
    ultimately show ?thesis using ls False by simp
  qed
qed

theorem sample_two_neighbors_raises_witness:
  "\<exists>g. AttributedGraph_init [[0, 1, 0], [1, 0, 0], [0, 0, 0]] () () None = Inr g
      \<and> graph_level_sets g 2 = Some [[2], [0, 1]]
      \<and> sample_two_neighbors g 2 5 (\<lambda>t. 0) = (Inl Exception, \<lambda>t. 0)
      \<and> graph_level_sets g 0 = Some [[0], [1], [2]]
      \<and> (\<nexists>e. fst (sample_two_neighbors g 0 5 (\<lambda>t. 0)) = Inl e)"
proof -
  from small_graph_constructed obtain g where
    g: "AttributedGraph_init [[0, 1, 0], [1, 0, 0], [0, 0, 0]] () () None = Inr g"
    and l0: "graph_level_sets g 0 = Some [[0], [1], [2]]"
    and l2: "graph_level_sets g 2 = Some [[2], [0, 1]]"
    by (auto split: sum.splits)
  have n2: "2 < shape0 [[0, 1, 0], [1, 0, 0], [0, 0, 0]]"
    and n0: "0 < shape0 [[0, 1, 0], [1, 0, 0], [0, 0, 0]]" by (simp_all add: shape0_def)
  from sample_two_neighbors_raises [OF g n2, of 5 "\<lambda>t. 0"] l2
  have a: "sample_two_neighbors g 2 5 (\<lambda>t. 0) = (Inl Exception, \<lambda>t. 0)" by auto
  from sample_two_neighbors_raises [OF g n0, of 5 "\<lambda>t. 0"] l0
  have b: "\<nexists>e. fst (sample_two_neighbors g 0 5 (\<lambda>t. 0)) = Inl e" by auto
  show ?thesis using g l0 l2 a b by blast
qed

text \<open>
  Claim C2, as stated, fails.  In the graph with the edge 0-1 and the isolated node 2,
  the only other node that node 0 reaches is its first-degree neighbour 1, and node 0
  is eligible all the same: node 2 lies in its overflow shell, which serves as the
  farther shell.
\<close>

theorem first_degree_node_eligible:
  "(case AttributedGraph_init [[0, 1, 0], [1, 0, 0], [0, 0, 0]] () () None of
      Inl e \<Rightarrow> False
    | Inr g \<Rightarrow> eligible_nodes g = Inr [0, 1] \<and> graph_level_sets g 0 = Some [[0], [1], [2]])
   \<and> shortest_path [[0, 1, 0], [1, 0, 0], [0, 0, 0]]
       = Inr [[Some 0, Some 1, None], [Some 1, Some 0, None], [None, None, Some 0]]"
  by code_simp

lemma init_nonempty:
  assumes "CompleteKPartiteGraph_init parts = Inr s" and "q < length parts"
  shows "parts ! q \<noteq> []"
  using init_unfold(2) [OF assms(1)] assms(2) by (auto simp: list_all_length)

text \<open>
  Claim C2, amended.  In a constructed graph a node is eligible exactly when its shell
  list has at least 3 shells, which is exactly when its shell 1 is non-empty and a
  further shell beyond it is non-empty; that further shell may be the overflow shell.
\<close>

theorem eligible_nodes_shells:
  assumes "AttributedGraph_init A X z K = Inr g" and "i < shape0 A"
  shows "\<exists>es ls. eligible_nodes g = Inr es \<and> graph_level_sets g i = Some ls
           \<and> (i \<in> set es \<longleftrightarrow> 3 \<le> length ls)
           \<and> (i \<in> set es \<longleftrightarrow>
                1 < length ls \<and> ls ! 1 \<noteq> [] \<and> (\<exists>d. 1 < d \<and> d < length ls \<and> ls ! d \<noteq> []))"
proof -
  note u = graph_unfold [OF assms(1)] and e = eligible_nodes_constructed [OF assms(1)]
  from u(5) [OF assms(2)] obtain ls where ls: "graph_level_sets g i = Some ls"
    and yes: "3 \<le> length ls \<longrightarrow>
       (\<exists>s. CompleteKPartiteGraph_init (drop 1 ls) = Inr s \<and> neighborhoods g ! i = Some s)"
    by auto
  let ?es = "filter (\<lambda>i. 3 \<le> length (the (graph_level_sets g i))) [0..<shape0 A]"
  have m: "i \<in> set ?es \<longleftrightarrow> 3 \<le> length ls" using ls assms(2) by simp
  have "3 \<le> length ls \<longleftrightarrow>
          1 < length ls \<and> ls ! 1 \<noteq> [] \<and> (\<exists>d. 1 < d \<and> d < length ls \<and> ls ! d \<noteq> [])"
  proof
    assume l: "3 \<le> length ls"
    with yes obtain s where s: "CompleteKPartiteGraph_init (drop 1 ls) = Inr s" by auto
    have "ls ! 1 \<noteq> []" using init_nonempty [OF s, of 0] l by simp
    moreover have "1 < length (drop 1 ls)" using l by simp
    from init_nonempty [OF s this] have "ls ! 2 \<noteq> []"
      using l by (simp add: nth_drop numeral_2_eq_2)
    ultimately show "1 < length ls \<and> ls ! 1 \<noteq> [] \<and> (\<exists>d. 1 < d \<and> d < length ls \<and> ls ! d \<noteq> [])"
      using l by (intro conjI exI [of _ 2]) simp_all
  next
    assume "1 < length ls \<and> ls ! 1 \<noteq> [] \<and> (\<exists>d. 1 < d \<and> d < length ls \<and> ls ! d \<noteq> [])"
    then show "3 \<le> length ls" by auto
  qed
  with m e ls show ?thesis by simp
qed

theorem eligible_nodes_shells_witness:
  "\<exists>g. AttributedGraph_init [[0, 1, 0], [1, 0, 0], [0, 0, 0]] () () None = Inr g
      \<and> eligible_nodes g = Inr [0, 1]
      \<and> graph_level_sets g 0 = Some [[0], [1], [2]]
      \<and> (0::nat) \<in> set [0, 1]"
proof -
  from small_graph_constructed obtain g where
    g: "AttributedGraph_init [[0, 1, 0], [1, 0, 0], [0, 0, 0]] () () None = Inr g"
    and e: "eligible_nodes g = Inr [0, 1]"
    and l: "graph_level_sets g 0 = Some [[0], [1], [2]]"
    by (auto split: sum.splits)
  have "0 < shape0 [[0, 1, 0], [1, 0, 0], [0, 0, 0]]" by (simp add: shape0_def)
  from eligible_nodes_shells [OF g this] e l have "(0::nat) \<in> set [0, 1]"
    by auto
  then show ?thesis using g e l by blast
qed

section \<open>Symmetry of the hop distances\<close>

lemma linked_sym: "linked A i j = linked A j i"
  by (auto simp: linked_def)

lemma reach_Suc:
  "j \<in> set (reach A (Suc k) i) \<longleftrightarrow>
     j < length A \<and> (j \<in> set (reach A k i) \<or> (\<exists>m\<in>set (reach A k i). linked A m j))"
  by (auto simp: list_ex_iff)

lemma reach_bound: "i < length A \<Longrightarrow> j \<in> set (reach A k i) \<Longrightarrow> j < length A"
  by (cases k) (auto simp: reach_Suc simp del: reach.simps(2))

lemma reach_front:
  assumes "i < length A"
  shows "j \<in> set (reach A (Suc k) i) \<longleftrightarrow>
     j < length A \<and> (j \<in> set (reach A k i) \<or>
        (\<exists>m<length A. linked A i m \<and> j \<in> set (reach A k m)))"
  using assms
proof (induction k arbitrary: j)
  case 0
  then show ?case by (auto simp: list_ex_iff)
next
  case (Suc k)
  have "j \<in> set (reach A (Suc (Suc k)) i) \<longleftrightarrow>
     j < length A \<and> (j \<in> set (reach A (Suc k) i) \<or>
        (\<exists>m\<in>set (reach A (Suc k) i). linked A m j))"
    by (rule reach_Suc)
  also have "\<dots> \<longleftrightarrow> j < length A \<and> (j \<in> set (reach A (Suc k) i) \<or>
        (\<exists>m<length A. linked A i m \<and> j \<in> set (reach A (Suc k) m)))"
  proof (cases "j < length A")
    case False
    then show ?thesis by simp
  next
    case j: True
    have "(\<exists>m\<in>set (reach A (Suc k) i). linked A m j) \<longrightarrow>
            j \<in> set (reach A (Suc k) i) \<or>
            (\<exists>m<length A. linked A i m \<and> j \<in> set (reach A (Suc k) m))"
    proof
      assume "\<exists>m\<in>set (reach A (Suc k) i). linked A m j"
      then obtain m where m: "m \<in> set (reach A (Suc k) i)" and l: "linked A m j" by blast
      from m Suc.IH [OF Suc.prems, of m]
      consider "m \<in> set (reach A k i)"
        | m' where "m' < length A" "linked A i m'" "m \<in> set (reach A k m')"
        by blast
      then show "j \<in> set (reach A (Suc k) i) \<or>
            (\<exists>m<length A. linked A i m \<and> j \<in> set (reach A (Suc k) m))"
      proof cases
        case 1
        then have "j \<in> set (reach A (Suc k) i)" using l j reach_Suc [of j A k i] by blast
        then show ?thesis by simp
      next
        case 2
        then have "j \<in> set (reach A (Suc k) m')" using l j reach_Suc [of j A k m'] by blast
        with 2 show ?thesis by blast
      qed
    qed
    moreover have "(\<exists>m<length A. linked A i m \<and> j \<in> set (reach A (Suc k) m)) \<longrightarrow>
            j \<in> set (reach A (Suc k) i) \<or> (\<exists>m\<in>set (reach A (Suc k) i). linked A m j)"
    proof
      assume "\<exists>m<length A. linked A i m \<and> j \<in> set (reach A (Suc k) m)"
      then obtain m where m: "m < length A" and l: "linked A i m"
        and r: "j \<in> set (reach A (Suc k) m)" by blast
      from r reach_Suc [of j A k m]
      consider "j \<in> set (reach A k m)" | m' where "m' \<in> set (reach A k m)" "linked A m' j"
        by blast
      then show "j \<in> set (reach A (Suc k) i) \<or> (\<exists>m\<in>set (reach A (Suc k) i). linked A m j)"
      proof cases
        case 1
        then have "j \<in> set (reach A (Suc k) i)"
          using Suc.IH [OF Suc.prems, of j] m l j by blast
        then show ?thesis by simp
      next
        case 2
        have "m' < length A" using reach_bound [OF m 2(1)] .
        then have "m' \<in> set (reach A (Suc k) i)"
          using Suc.IH [OF Suc.prems, of m'] m l 2(1) by blast
        with 2 show ?thesis by blast
      qed
    qed
    ultimately show ?thesis using j by blast
  qed
  finally show ?case .
qed

lemma reach_sym:
  "i < length A \<Longrightarrow> j < length A \<Longrightarrow>
   j \<in> set (reach A k i) \<longleftrightarrow> i \<in> set (reach A k j)"
proof (induction k arbitrary: i j)
  case 0
  then show ?case by auto
next
  case (Suc k)
  have "j \<in> set (reach A (Suc k) i) \<longleftrightarrow>
          j \<in> set (reach A k i) \<or> (\<exists>m\<in>set (reach A k i). linked A m j)"
    using Suc.prems reach_Suc [of j A k i] by simp
  also have "\<dots> \<longleftrightarrow> i \<in> set (reach A k j) \<or>
          (\<exists>m<length A. linked A j m \<and> i \<in> set (reach A k m))"
    using Suc.IH Suc.prems reach_bound [of i A _ k] linked_sym [of A _ j]
    by (metis (no_types, lifting))
  also have "\<dots> \<longleftrightarrow> i \<in> set (reach A (Suc k) j)"
    using reach_front [OF Suc.prems(2), of i k] Suc.prems(1) by simp
  finally show ?case .
qed

lemma hops_sym:
  assumes "i < length A" and "j < length A"
  shows "hops A i j = hops A j i"
proof -
  have "(\<lambda>k. j \<in> set (reach A k i)) = (\<lambda>k. i \<in> set (reach A k j))"
    using reach_sym [OF assms] by auto
  then show ?thesis by (simp add: hops_def)
qed

section \<open>The loops of the level sets\<close>

lemma fold_max_ge: "x \<in> set r \<or> x = a \<Longrightarrow> x \<le> fold max r (a::int)"
proof (induction r arbitrary: a x)
  case Nil
  then show ?case by simp
next
  case (Cons y r)
  have top: "max y a \<le> fold max r (max y a)" by (rule Cons.IH) simp
  from Cons.prems consider "x = y" | "x \<in> set r" | "x = a" by auto
  then show ?case
  proof cases
    case 1
    then show ?thesis using top by simp
  next
    case 2
    then have "x \<le> fold max r (max y a)" by (intro Cons.IH) simp
    then show ?thesis by simp
  next
    case 3
    then show ?thesis using top by simp
  qed
qed

lemma row_max_ge: "x \<in> set r \<Longrightarrow> x \<le> row_max r"
  unfolding row_max_def by (rule fold_max_ge) simp

lemma entry_le_row_max:
  assumes "distance_matrix n D" and "i < n" and "j < n"
  shows "D ! i ! j \<le> row_max (D ! i)" and "- 1 \<le> row_max (D ! i)"
proof -
  have "D ! i ! j \<in> set (D ! i)" using assms by (simp add: distance_matrix_def)
  then show a: "D ! i ! j \<le> row_max (D ! i)" by (rule row_max_ge)
  have "- 1 \<le> D ! i ! j" using assms by (simp add: distance_matrix_def)
  with a show "- 1 \<le> row_max (D ! i)" by simp
qed

lemma n_shells_pos:
  assumes "distance_matrix n D" and "i < n"
  shows "0 < n_shells D i"
  using entry_le_row_max(2) [OF assms assms(2)] by (simp add: n_shells_def)

lemma shell_index_less:
  assumes "distance_matrix n D" and "i < n" and "x < n"
  shows "shell_index D i x < n_shells D i"
proof -
  note e = entry_le_row_max [OF assms] and p = n_shells_pos [OF assms(1,2)]
  consider "x = i" | "x \<noteq> i" "D ! i ! x < 0" | "x \<noteq> i" "0 \<le> D ! i ! x" by linarith
  then show ?thesis
  proof cases
    case 1
    then show ?thesis using p by (simp add: shell_index_def)
  next
    case 2
    then show ?thesis using p by (simp add: shell_index_def)
  next
    case 3
    then have "shell_index D i x = nat (D ! i ! x)" by (simp add: shell_index_def)
    moreover have "nat (D ! i ! x) < nat (1 + row_max (D ! i) + 1)" using 3 e(1) by linarith
    ultimately show ?thesis by (simp add: n_shells_def)
  qed
qed

lemma shells_of_append:
  assumes "shell_index D i x < n_shells D i"
  shows "(shells_of D i seq)[shell_index D i x := shells_of D i seq ! shell_index D i x @ [x]]
           = shells_of D i (seq @ [x])"
proof (rule nth_equalityI)
  show "length ((shells_of D i seq)[shell_index D i x := shells_of D i seq ! shell_index D i x @ [x]])
          = length (shells_of D i (seq @ [x]))"
    by (simp add: shells_of_def)
next
  fix s
  assume "s < length ((shells_of D i seq)
              [shell_index D i x := shells_of D i seq ! shell_index D i x @ [x]])"
  then have s: "s < n_shells D i" by (simp add: shells_of_def)
  show "(shells_of D i seq)[shell_index D i x := shells_of D i seq ! shell_index D i x @ [x]] ! s
          = shells_of D i (seq @ [x]) ! s"
  proof (cases "s = shell_index D i x")
    case True
    then show ?thesis using s by (simp add: shells_of_def)
  next
    case False
    then have "shell_index D i x \<noteq> s" by simp
    then show ?thesis using s by (simp add: shells_of_def)
  qed
qed

lemma append_at_layout:
  assumes "i < n" and "shell_index D i x < n_shells D i"
    and "(if d < 0 then int (n_shells D i) + d else d) = int (shell_index D i x)"
  shows "append_at (layout D n seq) i d x = Inr (layout D n (seq(i := seq i @ [x])))"
proof -
  have l: "length (shells_of D i (seq i)) = n_shells D i" by (simp add: shells_of_def)
  have "(layout D n seq)(i \<mapsto> (shells_of D i (seq i))
            [shell_index D i x := shells_of D i (seq i) ! shell_index D i x @ [x]])
          = layout D n (seq(i := seq i @ [x]))"
    unfolding shells_of_append [OF assms(2)] using assms(1) by (auto simp: layout_def fun_eq_iff)
  then show ?thesis
    using assms l by (simp add: append_at_def layout_def Let_def)
qed

lemma place_layout:
  assumes "distance_matrix n D" and "j < a" and "a < n"
  shows "place D a (layout D n seq) j
           = Inr (layout D n (seq(a := seq a @ [j], j := seq j @ [a])))"
proof -
  have jn: "j < n" using assms by simp
  have sym: "D ! j ! a = D ! a ! j" using assms jn by (simp add: distance_matrix_def)
  note la = shell_index_less [OF assms(1,3) jn] and lj = shell_index_less [OF assms(1) jn assms(3)]
  note pa = n_shells_pos [OF assms(1,3)] and pj = n_shells_pos [OF assms(1) jn]
  have ne: "j \<noteq> a" using assms by simp
  show ?thesis
  proof (cases "D ! a ! j < 0")
    case True
    have 1: "append_at (layout D n seq) a (- 1) j = Inr (layout D n (seq(a := seq a @ [j])))"
      using True pa ne by (intro append_at_layout [OF assms(3) la]) (simp add: shell_index_def)
    have 2: "append_at (layout D n (seq(a := seq a @ [j]))) j (- 1) a
               = Inr (layout D n ((seq(a := seq a @ [j]))(j := (seq(a := seq a @ [j])) j @ [a])))"
      using True pj ne sym by (intro append_at_layout [OF jn lj]) (simp add: shell_index_def)
    show ?thesis using True 1 2 ne by (simp add: place_def)
  next
    case False
    have 1: "append_at (layout D n seq) a (D ! a ! j) j = Inr (layout D n (seq(a := seq a @ [j])))"
      using False ne by (intro append_at_layout [OF assms(3) la]) (simp add: shell_index_def)
    have 2: "append_at (layout D n (seq(a := seq a @ [j]))) j (D ! a ! j) a
               = Inr (layout D n ((seq(a := seq a @ [j]))(j := (seq(a := seq a @ [j])) j @ [a])))"
      using False ne sym by (intro append_at_layout [OF jn lj]) (simp add: shell_index_def)
    show ?thesis using False 1 2 ne by (simp add: place_def)
  qed
qed

lemma inner_loop_layout:
  assumes "distance_matrix n D" and "a < n" and "b \<le> a"
  shows "foldE (place D a) [0..<b] (layout D n seq)
           = Inr (layout D n (\<lambda>i. if i = a then seq a @ [0..<b]
                                   else if i < b then seq i @ [a] else seq i))"
  using assms(3)
proof (induction b)
  case 0
  have "(\<lambda>i. if i = a then seq a @ [0..<0] else if i < 0 then seq i @ [a] else seq i) = seq"
    by auto
  then show ?case by simp
next
  case (Suc b)
  let ?s = "\<lambda>i. if i = a then seq a @ [0..<b] else if i < b then seq i @ [a] else seq i"
  have b: "b < a" using Suc.prems by simp
  have "?s(a := ?s a @ [b], b := ?s b @ [a])
          = (\<lambda>i. if i = a then seq a @ [0..<Suc b] else if i < Suc b then seq i @ [a] else seq i)"
    using b by (auto simp: fun_eq_iff)
  then show ?case
    using Suc.IH b place_layout [OF assms(1) b assms(2), of ?s]
    by (simp add: foldE_append)
qed

lemma visit_layout:
  assumes "distance_matrix n D" and "a < n"
  shows "visit D (layout D n (seen a)) a = Inr (layout D n (seen (Suc a)))"
proof -
  let ?s = "(seen a)(a := seen a a @ [a])"
  have 0: "shell_index D a a < n_shells D a"
    using n_shells_pos [OF assms] by (simp add: shell_index_def)
  have 1: "append_at (layout D n (seen a)) a 0 a = Inr (layout D n ?s)"
    by (intro append_at_layout [OF assms(2) 0]) (simp add: shell_index_def)
  have "(\<lambda>i. if i = a then ?s a @ [0..<a] else if i < a then ?s i @ [a] else ?s i) = seen (Suc a)"
    by (auto simp: fun_eq_iff seen_def)
  then show ?thesis
    using 1 inner_loop_layout [OF assms order_refl, of ?s] by (simp add: visit_def)
qed

lemma outer_loop_layout:
  assumes "distance_matrix n D" and "a \<le> n"
  shows "foldE (visit D) [0..<a] (layout D n (seen 0)) = Inr (layout D n (seen a))"
  using assms(2)
proof (induction a)
  case 0
  then show ?case by simp
next
  case (Suc a)
  then show ?case using visit_layout [OF assms(1), of a] by (simp add: foldE_append)
qed

lemma read_level_sets_layout:
  assumes "distance_matrix n D"
  shows "read_level_sets D = Inr (layout D n (seen n))"
proof -
  have n: "length D = n" using assms by (simp add: distance_matrix_def)
  have "(\<lambda>i. if i < length D then Some (replicate (nat (1 + map row_max D ! i + 1)) []) else None)
          = layout D n (seen 0)"
    using n by (auto simp: fun_eq_iff layout_def shells_of_def seen_def n_shells_def
        map_replicate_const)
  then show ?thesis
    using outer_loop_layout [OF assms order_refl] n by (simp add: read_level_sets_def)
qed

lemma set_seen: "i < n \<Longrightarrow> set (seen n i) = {0..<n}"
  by (auto simp: seen_def)

lemma mset_seen: "i < n \<Longrightarrow> mset (seen n i) = mset [0..<n]"
proof -
  assume i: "i < n"
  have "[0..<n] = [0..<i] @ i # [Suc i..<n]"
    using i by (metis le_add_diff_inverse less_imp_le_nat upt_add_eq_append upt_conv_Cons zero_le)
  then show ?thesis using i by (simp add: seen_def)
qed

lemma mset_filter_split:
  "mset (filter (\<lambda>x. f x < m) xs) + mset (filter (\<lambda>x. f x = m) xs)
     = mset (filter (\<lambda>x. f x < Suc m) xs)" for f :: "'a \<Rightarrow> nat"
  by (induction xs) (auto simp: less_Suc_eq)

lemma mset_concat_filter:
  "mset (concat (map (\<lambda>s. filter (\<lambda>x. f x = s) xs) [0..<m])) = mset (filter (\<lambda>x. f x < m) xs)"
proof (induction m)
  case 0
  then show ?case by simp
next
  case (Suc m)
  then show ?case using mset_filter_split [of f m xs] by simp
qed

lemma shells_of_mset:
  assumes "distance_matrix n D" and "i < n"
  shows "mset (concat (shells_of D i (seen n i))) = mset [0..<n]"
proof -
  have "filter (\<lambda>x. shell_index D i x < n_shells D i) (seen n i) = seen n i"
    using shell_index_less [OF assms] set_seen [OF assms(2)] by (intro filter_True) simp
  then show ?thesis
    unfolding shells_of_def mset_concat_filter using mset_seen [OF assms(2)] by simp
qed

lemma shells_of_member:
  assumes "i < n" and "j < n" and "d < n_shells D i"
  shows "j \<in> set (shells_of D i (seen n i) ! d) \<longleftrightarrow> shell_index D i j = d"
  using assms set_seen [OF assms(1)] by (simp add: shells_of_def)

lemma to_int_clip_nth:
  assumes "i < n" and "j < n"
  shows "clip K (to_int (map (\<lambda>i. map (hops A i) [0..<n]) [0..<n])) ! i ! j
           = (case K of
                None \<Rightarrow> (case hops A i j of None \<Rightarrow> - 1 | Some h \<Rightarrow> int h)
              | Some k \<Rightarrow> (if (case hops A i j of None \<Rightarrow> - 1 | Some h \<Rightarrow> int h) > k then - 1
                           else (case hops A i j of None \<Rightarrow> - 1 | Some h \<Rightarrow> int h)))"
  using assms by (simp add: clip_def to_int_def split: option.splits)

lemma level_sets_layout:
  assumes "square A" and "A \<noteq> []"
  shows "\<exists>D. distance_matrix (length A) D
            \<and> level_sets A K = Inr (layout D (length A) (seen (length A)))
            \<and> (\<forall>i<length A. \<forall>j<length A. D ! i ! j < 0 \<longleftrightarrow>
                  (hops A i j = None \<or> (\<exists>k h. K = Some k \<and> hops A i j = Some h \<and> k < int h)))
            \<and> (\<forall>i<length A. \<forall>j<length A. \<forall>d. D ! i ! j = int d \<longleftrightarrow>
                  (hops A i j = Some d \<and> (\<forall>k. K = Some k \<longrightarrow> int d \<le> k)))"
proof -
  let ?n = "length A"
  let ?D = "clip K (to_int (map (\<lambda>i. map (hops A i) [0..<?n]) [0..<?n]))"
  have sq: "\<forall>r\<in>set A. length r = ?n" using assms(1) by (simp add: square_def list_all_iff)
  have s0: "shape0 A \<noteq> 0" using assms(2) by (simp add: shape0_def)
  have s1: "shape1 A \<noteq> 0" using assms(2) sq by (cases A) (auto simp: shape1_def)
  have sp: "shortest_path A = Inr (map (\<lambda>i. map (hops A i) [0..<?n]) [0..<?n])"
    using assms(1) by (simp add: shortest_path_def)
  have len: "length ?D = ?n" by (simp add: clip_def to_int_def split: option.splits)
  have row: "length (?D ! i) = ?n" if "i < ?n" for i
    using that by (simp add: clip_def to_int_def split: option.splits)
  note nth = to_int_clip_nth [of _ ?n _ K A]
  have sym: "?D ! i ! j = ?D ! j ! i" if "i < ?n" "j < ?n" for i j
    unfolding nth [OF that] nth [OF that(2,1)] hops_sym [OF that] ..
  have lo: "- 1 \<le> ?D ! i ! j" if "i < ?n" "j < ?n" for i j
    unfolding nth [OF that] by (simp split: option.splits)
  have dm: "distance_matrix ?n ?D"
    unfolding distance_matrix_def using len row sym lo by blast
  have neg: "?D ! i ! j < 0 \<longleftrightarrow>
      (hops A i j = None \<or> (\<exists>k h. K = Some k \<and> hops A i j = Some h \<and> k < int h))"
    if "i < ?n" "j < ?n" for i j
    unfolding nth [OF that] by (auto split: option.splits)
  have fin: "?D ! i ! j = int d \<longleftrightarrow> (hops A i j = Some d \<and> (\<forall>k. K = Some k \<longrightarrow> int d \<le> k))"
    if "i < ?n" "j < ?n" for i j d
    unfolding nth [OF that] by (auto split: option.splits)
  have "level_sets A K = Inr (layout ?D ?n (seen ?n))"
    using s0 s1 sp read_level_sets_layout [OF dm] by (simp add: level_sets_def)
  then show ?thesis using dm neg fin by blast
qed

section \<open>Properties of the level sets\<close>

lemma small_graph_level_sets:
  "case level_sets [[0, 1, 0], [1, 0, 0], [0, 0, 0]] None of
     Inl e \<Rightarrow> False
   | Inr m \<Rightarrow> m 0 = Some [[0], [1], [2]] \<and> m 1 = Some [[1], [0], [2]]
              \<and> m 2 = Some [[2], [0, 1]]"
  by code_simp

lemma small_graph_hops: "hops [[0, 1, 0], [1, 0, 0], [0, 0, 0]] 0 2 = None"
  by code_simp

lemma small_graph_square: "square [[0, 1, 0], [1, 0, 0], [0, 0, 0]]"
  by (simp add: square_def)

text \<open>
  Claim C5.  For a square adjacency matrix on \<open>n\<close> nodes, every \<open>K\<close> and every node
  \<open>i\<close>, \<^verbatim>\<open>level_sets\<close> returns, and the shells of \<open>i\<close> hold every node exactly
  once: their concatenation is a permutation of \<open>0, ..., n - 1\<close> without repetition,
  their sizes add up to \<open>n\<close>, and every node lies in exactly one shell.
\<close>

theorem level_sets_partition:
  assumes "square A" and "i < length A"
  shows "\<exists>sets ls. level_sets A K = Inr sets \<and> sets i = Some ls
           \<and> mset (concat ls) = mset [0..<length A]
           \<and> distinct (concat ls)
           \<and> sum_list (map length ls) = length A
           \<and> (\<forall>j<length A. \<exists>!d. d < length ls \<and> j \<in> set (ls ! d))"
proof -
  have ne: "A \<noteq> []" using assms(2) by auto
  from level_sets_layout [OF assms(1) ne, of K] obtain D where
    dm: "distance_matrix (length A) D"
    and ls: "level_sets A K = Inr (layout D (length A) (seen (length A)))"
    by blast
  let ?ls = "shells_of D i (seen (length A) i)"
  have si: "layout D (length A) (seen (length A)) i = Some ?ls"
    using assms(2) by (simp add: layout_def)
  have m: "mset (concat ?ls) = mset [0..<length A]"
    by (rule shells_of_mset [OF dm assms(2)])
  have d: "distinct (concat ?ls)"
    using m by (metis distinct_upt mset_eq_imp_distinct_iff)
  have "length (concat ?ls) = length A"
    using m by (metis length_upt minus_nat.diff_0 size_mset)
  then have s: "sum_list (map length ?ls) = length A" by (simp add: length_concat)
  have len: "length ?ls = n_shells D i" by (simp add: shells_of_def)
  have u: "\<exists>!d. d < length ?ls \<and> j \<in> set (?ls ! d)" if j: "j < length A" for j
  proof (rule ex1I [of _ "shell_index D i j"])
    show "shell_index D i j < length ?ls \<and> j \<in> set (?ls ! shell_index D i j)"
      using shell_index_less [OF dm assms(2) j] shells_of_member [OF assms(2) j, of "shell_index D i j" D]
      unfolding len by simp
  next
    fix d assume "d < length ?ls \<and> j \<in> set (?ls ! d)"
    then show "d = shell_index D i j"
      using shells_of_member [OF assms(2) j, of d D] unfolding len by simp
  qed
  show ?thesis
    apply (rule exI [of _ "layout D (length A) (seen (length A))"], rule exI [of _ ?ls])
    using ls si m d s u by (intro conjI allI impI) (assumption | simp)+
qed

theorem level_sets_partition_witness:
  "\<exists>sets. level_sets [[0, 1, 0], [1, 0, 0], [0, 0, 0]] None = Inr sets
      \<and> sets 2 = Some [[2], [0, 1]]
      \<and> mset (concat [[2], [0, 1::nat]]) = mset [0..<3]
      \<and> distinct (concat [[2], [0, 1::nat]])
      \<and> sum_list (map length [[2], [0, 1::nat]]) = 3"
proof -
  from small_graph_level_sets obtain sets where
    s: "level_sets [[0, 1, 0], [1, 0, 0], [0, 0, 0]] None = Inr sets"
    and s2: "sets 2 = Some [[2], [0, 1]]"
    by (auto split: sum.splits)
  have lt: "2 < length [[0::nat, 1, 0], [1, 0, 0], [0, 0, 0]]" by simp
  from level_sets_partition [OF small_graph_square lt, of None] obtain sets' ls where
    s': "level_sets [[0, 1, 0], [1, 0, 0], [0, 0, 0]] None = Inr sets'"
    and l: "sets' 2 = Some ls"
    and m: "mset (concat ls) = mset [0..<length [[0::nat, 1, 0], [1, 0, 0], [0, 0, 0]]]"
    and d: "distinct (concat ls)"
    and c: "sum_list (map length ls) = length [[0::nat, 1, 0], [1, 0, 0], [0, 0, 0]]"
    by (elim exE conjE)
  have ls: "ls = [[2], [0, 1]]" using s s' s2 l by simp
  have n3: "length [[0::nat, 1, 0], [1, 0, 0], [0, 0, 0]] = 3" by simp
  have 1: "mset (concat [[2], [0, 1::nat]]) = mset [0..<3]" using m unfolding ls n3 .
  have 2: "distinct (concat [[2], [0, 1::nat]])" using d unfolding ls .
  have 3: "sum_list (map length [[2], [0, 1::nat]]) = 3" using c unfolding ls n3 .
  show ?thesis
    apply (rule exI [of _ sets])
    using s s2 1 2 3 by (intro conjI) assumption+
qed

lemma finite_shell:
  assumes "distance_matrix n D" and "i < n" and "j < n" and "i \<noteq> j"
  shows "Suc d < n_shells D i \<and> j \<in> set (shells_of D i (seen n i) ! d) \<longleftrightarrow> D ! i ! j = int d"
proof (cases "D ! i ! j < 0")
  case True
  then have "shell_index D i j = n_shells D i - 1" using assms(4) by (simp add: shell_index_def)
  then have "\<not> (Suc d < n_shells D i \<and> j \<in> set (shells_of D i (seen n i) ! d))"
    using shells_of_member [OF assms(2,3), of d D] by auto
  then show ?thesis using True by simp
next
  case False
  then have si: "shell_index D i j = nat (D ! i ! j)" using assms(4) by (simp add: shell_index_def)
  have "D ! i ! j \<le> row_max (D ! i)" by (rule entry_le_row_max(1) [OF assms(1,2,3)])
  then have lt: "Suc (nat (D ! i ! j)) < n_shells D i" using False by (simp add: n_shells_def)
  show ?thesis
  proof
    assume a: "Suc d < n_shells D i \<and> j \<in> set (shells_of D i (seen n i) ! d)"
    then have "shell_index D i j = d" using shells_of_member [OF assms(2,3), of d D] by simp
    then show "D ! i ! j = int d" using si False by simp
  next
    assume "D ! i ! j = int d"
    then have "nat (D ! i ! j) = d" by simp
    then show "Suc d < n_shells D i \<and> j \<in> set (shells_of D i (seen n i) ! d)"
      using lt si shells_of_member [OF assms(2,3), of d D] by simp
  qed
qed

lemma overflow_shell:
  assumes "distance_matrix n D" and "i < n" and "j < n" and "i \<noteq> j"
  shows "j \<in> set (last (shells_of D i (seen n i))) \<longleftrightarrow> D ! i ! j < 0"
proof -
  note p = n_shells_pos [OF assms(1,2)]
  have len: "length (shells_of D i (seen n i)) = n_shells D i" by (simp add: shells_of_def)
  then have "shells_of D i (seen n i) \<noteq> []" using p by auto
  then have l: "last (shells_of D i (seen n i)) = shells_of D i (seen n i) ! (n_shells D i - 1)"
    using len by (simp add: last_conv_nth)
  have m: "j \<in> set (shells_of D i (seen n i) ! (n_shells D i - 1)) \<longleftrightarrow>
             shell_index D i j = n_shells D i - 1"
    using p by (intro shells_of_member [OF assms(2,3)]) simp
  show ?thesis
  proof (cases "D ! i ! j < 0")
    case True
    then show ?thesis unfolding l m using assms(4) by (simp add: shell_index_def)
  next
    case False
    have "D ! i ! j \<le> row_max (D ! i)" by (rule entry_le_row_max(1) [OF assms(1,2,3)])
    then have "nat (D ! i ! j) \<noteq> n_shells D i - 1" using False by (simp add: n_shells_def)
    then show ?thesis unfolding l m using assms(4) False by (simp add: shell_index_def)
  qed
qed

text \<open>
  Claim C6.  For a square adjacency matrix read as an undirected, unweighted graph and
  two distinct nodes \<open>i\<close> and \<open>j\<close>: for every index \<open>d\<close> of a shell that is not the
  last one, \<open>j\<close> lies in shell \<open>d\<close> of \<open>i\<close> exactly when \<open>i\<close> lies in shell \<open>d\<close> of
  \<open>j\<close>, which is exactly when their hop distance is \<open>d\<close> (and at most \<open>K\<close>); and \<open>j\<close>
  lies in the last, overflow shell of \<open>i\<close> exactly when \<open>i\<close> lies in the overflow shell
  of \<open>j\<close>, which is exactly when \<open>j\<close> is unreachable from \<open>i\<close> or farther than \<open>K\<close>.
\<close>

theorem level_sets_symmetric:
  assumes "square A" and "i < length A" and "j < length A" and "i \<noteq> j"
  shows "\<exists>sets li lj. level_sets A K = Inr sets \<and> sets i = Some li \<and> sets j = Some lj
           \<and> li \<noteq> [] \<and> lj \<noteq> []
           \<and> (\<forall>d. (Suc d < length li \<and> j \<in> set (li ! d)) \<longleftrightarrow>
                   (Suc d < length lj \<and> i \<in> set (lj ! d)))
           \<and> (\<forall>d. (Suc d < length li \<and> j \<in> set (li ! d)) \<longleftrightarrow>
                   (hops A i j = Some d \<and> (\<forall>k. K = Some k \<longrightarrow> int d \<le> k)))
           \<and> (j \<in> set (last li) \<longleftrightarrow> i \<in> set (last lj))
           \<and> (j \<in> set (last li) \<longleftrightarrow>
                 (hops A i j = None \<or> (\<exists>k h. K = Some k \<and> hops A i j = Some h \<and> k < int h)))"
proof -
  have ne: "A \<noteq> []" using assms(2) by auto
  from level_sets_layout [OF assms(1) ne, of K] obtain D where
    dm: "distance_matrix (length A) D"
    and ls: "level_sets A K = Inr (layout D (length A) (seen (length A)))"
    and neg: "\<forall>i<length A. \<forall>j<length A. D ! i ! j < 0 \<longleftrightarrow>
                  (hops A i j = None \<or> (\<exists>k h. K = Some k \<and> hops A i j = Some h \<and> k < int h))"
    and fin: "\<forall>i<length A. \<forall>j<length A. \<forall>d. D ! i ! j = int d \<longleftrightarrow>
                  (hops A i j = Some d \<and> (\<forall>k. K = Some k \<longrightarrow> int d \<le> k))"
    by blast
  let ?li = "shells_of D i (seen (length A) i)" and ?lj = "shells_of D j (seen (length A) j)"
  have si: "layout D (length A) (seen (length A)) i = Some ?li"
    using assms(2) by (simp add: layout_def)
  have sj: "layout D (length A) (seen (length A)) j = Some ?lj"
    using assms(3) by (simp add: layout_def)
  have leni: "length ?li = n_shells D i" and lenj: "length ?lj = n_shells D j"
    by (simp_all add: shells_of_def)
  have nei: "?li \<noteq> []" using n_shells_pos [OF dm assms(2)] leni by auto
  have nej: "?lj \<noteq> []" using n_shells_pos [OF dm assms(3)] lenj by auto
  have sym: "D ! j ! i = D ! i ! j"
    using dm assms(2,3) by (simp add: distance_matrix_def)
  note fi = finite_shell [OF dm assms(2,3,4)] and fj = finite_shell [OF dm assms(3,2) assms(4) [symmetric]]
  note oi = overflow_shell [OF dm assms(2,3,4)] and oj = overflow_shell [OF dm assms(3,2) assms(4) [symmetric]]
  have a: "(Suc d < length ?li \<and> j \<in> set (?li ! d)) \<longleftrightarrow> (Suc d < length ?lj \<and> i \<in> set (?lj ! d))" for d
    unfolding leni lenj fi fj sym ..
  have b: "(Suc d < length ?li \<and> j \<in> set (?li ! d)) \<longleftrightarrow>
             (hops A i j = Some d \<and> (\<forall>k. K = Some k \<longrightarrow> int d \<le> k))" for d
    unfolding leni fi using fin assms(2,3) by blast
  have c: "j \<in> set (last ?li) \<longleftrightarrow> i \<in> set (last ?lj)"
    unfolding oi oj sym ..
  have e: "j \<in> set (last ?li) \<longleftrightarrow>
             (hops A i j = None \<or> (\<exists>k h. K = Some k \<and> hops A i j = Some h \<and> k < int h))"
    unfolding oi using neg assms(2,3) by blast
  show ?thesis
    apply (rule exI [of _ "layout D (length A) (seen (length A))"])
    apply (rule exI [of _ ?li], rule exI [of _ ?lj])
    using ls si sj nei nej a b c e by (intro conjI allI) assumption+
qed

theorem level_sets_symmetric_witness:
  "\<exists>sets. level_sets [[0, 1, 0], [1, 0, 0], [0, 0, 0]] None = Inr sets
      \<and> sets 0 = Some [[0], [1], [2]]
      \<and> sets 2 = Some [[2], [0, 1]]
      \<and> hops [[0, 1, 0], [1, 0, 0], [0, 0, 0]] 0 2 = None
      \<and> 2 \<in> set (last [[0], [1], [2::nat]])
      \<and> 0 \<in> set (last [[2], [0, 1::nat]])"
proof -
  from small_graph_level_sets obtain sets where
    s: "level_sets [[0, 1, 0], [1, 0, 0], [0, 0, 0]] None = Inr sets"
    and s0: "sets 0 = Some [[0], [1], [2]]"
    and s2: "sets 2 = Some [[2], [0, 1]]"
    by (auto split: sum.splits)
  have l0: "0 < length [[0::nat, 1, 0], [1, 0, 0], [0, 0, 0]]"
    and l2: "2 < length [[0::nat, 1, 0], [1, 0, 0], [0, 0, 0]]" by simp_all
  have ne: "(0::nat) \<noteq> 2" by simp
  from level_sets_symmetric [OF small_graph_square l0 l2 ne, of None] obtain sets' li lj where
    s': "level_sets [[0, 1, 0], [1, 0, 0], [0, 0, 0]] None = Inr sets'"
    and i: "sets' 0 = Some li" and j: "sets' 2 = Some lj"
    and sym: "2 \<in> set (last li) \<longleftrightarrow> 0 \<in> set (last lj)"
    and ov: "2 \<in> set (last li) \<longleftrightarrow>
               (hops [[0, 1, 0], [1, 0, 0], [0, 0, 0]] 0 2 = None
                \<or> (\<exists>k h. None = Some k \<and> hops [[0, 1, 0], [1, 0, 0], [0, 0, 0]] 0 2 = Some h
                       \<and> k < int h))"
    by (elim exE conjE)
  have li: "li = [[0], [1], [2]]" and lj: "lj = [[2], [0, 1]]"
    using s s' s0 s2 i j by simp_all
  have 1: "2 \<in> set (last [[0], [1], [2::nat]])"
    using ov small_graph_hops unfolding li by blast
  have 2: "0 \<in> set (last [[2], [0, 1::nat]])"
    using sym 1 unfolding li lj by blast
  show ?thesis
    apply (rule exI [of _ sets])
    using s s0 s2 small_graph_hops 1 2 by (intro conjI) assumption+
qed

section \<open>The loss weight\<close>

lemma sum_list_drop1:
  "sum_list (map f (drop 1 xs)) = (\<Sum>d = 1..<length xs. f (xs ! d))"
proof (cases xs)
  case Nil
  then show ?thesis by simp
next
  case (Cons x ys)
  have "sum_list (map f ys) = (\<Sum>d = 0..<length ys. f (ys ! d))"
    by (simp add: sum_list_sum_nth)
  also have "\<dots> = (\<Sum>d = 0..<length ys. f ((x # ys) ! Suc d))"
    by simp
  also have "\<dots> = (\<Sum>d = Suc 0..<Suc (length ys). f ((x # ys) ! d))"
    by (rule sum.shift_bounds_Suc_ivl [symmetric])
  finally show ?thesis using Cons by simp
qed

lemma loss_weight_shells:
  "loss_weight (map (\<lambda>s. int (length s)) ls) =
     0.5 * ((\<Sum>d = 1..<length ls. real (length (ls ! d)))\<^sup>2
            - (\<Sum>d = 1..<length ls. (real (length (ls ! d)))\<^sup>2))"
proof -
  have a: "sum_list (drop 1 (map (\<lambda>s. int (length s)) ls)) = (\<Sum>d = 1..<length ls. int (length (ls ! d)))"
    using sum_list_drop1 [of "\<lambda>s. int (length s)" ls] by (simp add: drop_map)
  have b: "sum_list (map (\<lambda>c. c\<^sup>2) (drop 1 (map (\<lambda>s. int (length s)) ls)))
        = (\<Sum>d = 1..<length ls. (int (length (ls ! d)))\<^sup>2)"
    using sum_list_drop1 [of "\<lambda>s. (int (length s))\<^sup>2" ls] by (simp add: drop_map comp_def)
  show ?thesis unfolding loss_weight_def a b by simp
qed

text \<open>
  Claim C7.  For a node \<open>i\<close> of a constructed graph with shells \<open>ls\<close> (the self shell
  at index 0), the precomputed loss weight is half of the square of the sum of the
  cardinalities of the shells from index 1 on, minus the sum of their squares; for the
  shell sizes \<open>[1, 3, 4]\<close> it is 12.
\<close>

theorem loss_weight_formula:
  assumes "AttributedGraph_init A X z K = Inr g" and "i < shape0 A"
  shows "(\<exists>ls. graph_level_sets g i = Some ls \<and>
            level_counts g i = Some (map (\<lambda>s. int (length s)) ls) \<and>
            loss_weights g ! i =
              0.5 * ((\<Sum>d = 1..<length ls. real (length (ls ! d)))\<^sup>2
                     - (\<Sum>d = 1..<length ls. (real (length (ls ! d)))\<^sup>2)))
         \<and> loss_weight [1, 3, 4] = 12"
proof -
  from assms(1) obtain sets ws nb where
    ls: "level_sets A K = Inr sets"
    and ws: "mapE (\<lambda>i. case map_option (map (\<lambda>s. int (length s))) (sets i) of
                          None \<Rightarrow> Inl KeyError | Some Ni \<Rightarrow> Inr (loss_weight Ni))
               [0..<shape0 A] = Inr ws"
    and g: "g = \<lparr>graph_A = A, graph_X = X, graph_z = z, graph_level_sets = sets,
                 level_counts = (\<lambda>node. map_option (map (\<lambda>s. int (length s))) (sets node)),
                 loss_weights = ws, neighborhoods = nb\<rparr>"
    unfolding AttributedGraph_init_def by (auto simp: Let_def split: sum.splits)
  from mapE_Inr [OF ws] assms(2)
  have "(case map_option (map (\<lambda>s. int (length s))) (sets i) of
           None \<Rightarrow> Inl KeyError | Some Ni \<Rightarrow> Inr (loss_weight Ni)) = Inr (ws ! i)"
    by auto
  then obtain ls where s: "sets i = Some ls"
    and w: "ws ! i = loss_weight (map (\<lambda>s. int (length s)) ls)"
    by (cases "sets i") auto
  have "loss_weight [1, 3, 4] = 12" by (simp add: loss_weight_def)
  then show ?thesis using s w g loss_weight_shells [of ls] by simp
qed

theorem loss_weight_formula_witness:
  "\<exists>g. AttributedGraph_init [[0, 1, 0], [1, 0, 0], [0, 0, 0]] () () None = Inr g
        \<and> graph_level_sets g 0 = Some [[0], [1], [2]]
        \<and> loss_weights g ! 0 = 1"
proof -
  have "case AttributedGraph_init [[0, 1, 0], [1, 0, 0], [0, 0, 0]] () () None of
          Inl e \<Rightarrow> False
        | Inr g \<Rightarrow> graph_level_sets g 0 = Some [[0], [1], [2]]"
    by code_simp
  then obtain g where g: "AttributedGraph_init [[0, 1, 0], [1, 0, 0], [0, 0, 0]] () () None = Inr g"
    and ls: "graph_level_sets g 0 = Some [[0], [1], [2]]"
    by (auto split: sum.splits)
  have "0 < shape0 [[0, 1, 0], [1, 0, 0], [0, 0, 0]]" by (simp add: shape0_def)
  from loss_weight_formula [OF g this] ls
  have "loss_weights g ! 0 = 1"
    by auto
  then show ?thesis using g ls by blast
qed

section \<open>The closer energy\<close>

lemma ratio_same:
  "\<forall>x\<in>set s. 0 < x \<Longrightarrow> map (\<lambda>(a, b). a / b) (zip s s) = replicate (length s) (1::real)"
  by (induction s) auto

lemma diff_same: "map (\<lambda>(a, b). a - b) (zip m m) = replicate (length m) (0::real)"
  by (induction m) auto

lemma sum_list_replicate_real: "sum_list (replicate n (c::real)) = real n * c"
  by (induction n) (auto simp: algebra_simps)

lemma sq_div_zero: "sum_list (map (\<lambda>(d, s). d\<^sup>2 / s) (zip (replicate n (0::real)) s)) = 0"
proof (induction s arbitrary: n)
  case Nil
  then show ?case by simp
next
  case (Cons a s)
  then show ?case by (cases n) auto
qed
 
lemma closer_row_same:
  assumes "length m = L" and "length s = L" and "\<forall>x\<in>set s. 0 < x"
  shows "closer_row L m s m s = 0"
  using assms
  by (simp add: closer_row_def ratio_same diff_same sum_list_replicate_real sq_div_zero 
      map_replicate)

lemma gather_rows_Inr: "gather_rows M idx = Inr rows \<Longrightarrow> t < length idx \<Longrightarrow>
   length rows = length idx \<and> rows ! t = M ! (idx ! t)"
  by (auto simp: gather_rows_def split: if_splits)

text \<open>
  Claim C9.  For a triplet \<open>t\<close> of the batch whose closer neighbour has the anchor's
  mean and variance rows, all variances positive and the rows of length \<open>L\<close>, the
  closer term that \<^verbatim>\<open>compute_loss\<close> computes is 0.
\<close>

theorem closer_energy_identical:
  assumes "closer_energy L mu sigma i j = Inr closer"
    and "t < length i"
    and "mu ! (i ! t) = mu ! (j ! t)"
    and "sigma ! (i ! t) = sigma ! (j ! t)"
    and "length (mu ! (i ! t)) = L"
    and "length (sigma ! (i ! t)) = L"
    and "\<forall>x\<in>set (sigma ! (i ! t)). 0 < x"
  shows "closer ! t = 0"
proof -
  from assms(1) obtain mu_i sigma_i mu_j sigma_j where
    len: "length i = length j"
    and a: "gather_rows mu i = Inr mu_i" and b: "gather_rows sigma i = Inr sigma_i"
    and c: "gather_rows mu j = Inr mu_j" and d: "gather_rows sigma j = Inr sigma_j"
    and cl: "closer = map (\<lambda>(mi, si, mj, sj). closer_row L mi si mj sj)
               (zip mu_i (zip sigma_i (zip mu_j sigma_j)))"
    unfolding closer_energy_def by (auto split: sum.splits if_splits)
  have tj: "t < length j" using len assms(2) by simp
  note A = gather_rows_Inr [OF a assms(2)] and B = gather_rows_Inr [OF b assms(2)]
    and C = gather_rows_Inr [OF c tj] and D = gather_rows_Inr [OF d tj]
  have "closer ! t = closer_row L (mu ! (i ! t)) (sigma ! (i ! t)) (mu ! (j ! t)) (sigma ! (j ! t))"
    using A B C D len assms(2) unfolding cl by simp
  also have "\<dots> = 0"
    using closer_row_same [of "mu ! (i ! t)" L "sigma ! (i ! t)"] assms by simp
  finally show ?thesis .
qed

theorem closer_energy_identical_witness:
  "closer_energy 2 [[1, 2], [1, 2], [5, 5]] [[1, 3], [1, 3], [2, 2]] [0, 2] [1, 2]
      = Inr [closer_row 2 [1, 2] [1, 3] [1, 2] [1, 3], closer_row 2 [5, 5] [2, 2] [5, 5] [2, 2]]
   \<and> closer_row 2 [1, 2] [1, 3] [1, 2] [1, 3] = 0"
proof -
  have e: "closer_energy 2 [[1, 2], [1, 2], [5, 5]] [[1, 3], [1, 3], [2, 2]] [0, 2] [1, 2]
      = Inr [closer_row 2 [1, 2] [1, 3] [1, 2] [1, 3], closer_row 2 [5, 5] [2, 2] [5, 5] [2, 2]]"
    by (simp add: closer_energy_def gather_rows_def)
  show ?thesis
    using closer_energy_identical [OF e, of 0] e by simp
qed

section \<open>The path graph\<close>

lemma path_graph_shells:
  "case level_sets [[0,1,0,0,0],[1,0,1,0,0],[0,1,0,1,0],[0,0,1,0,1],[0,0,0,1,0]] None of
     Inl e \<Rightarrow> False
   | Inr m \<Rightarrow> m 2 = Some [[2], [1, 3], [0, 4], []]"
  by code_simp

lemma path_graph_construction:
  "case AttributedGraph_init
          [[0,1,0,0,0],[1,0,1,0,0],[0,1,0,1,0],[0,0,1,0,1],[0,0,0,1,0]] () () None of
     Inl e \<Rightarrow> e = AssertionError
   | Inr g \<Rightarrow> False"
  by code_simp

text \<open>
  Claim C1.  On the path graph 0-1-2-3-4 with \<^verbatim>\<open>K = None\<close> every node is within
  finite distance of node 2, and yet the shell list of node 2 ends with an empty fourth
  shell: \<^verbatim>\<open>level_sets\<close> allocates \<open>1 + set_counts[i] + 1\<close> shells for every node.
  The empty shell then fails the assertion of \<^verbatim>\<open>CompleteKPartiteGraph.__init__\<close>
  that every partition is non-empty.
\<close>

theorem path_graph_trailing_shell:
  "(\<exists>m. level_sets [[0,1,0,0,0],[1,0,1,0,0],[0,1,0,1,0],[0,0,1,0,1],[0,0,0,1,0]] None = Inr m
        \<and> m 2 = Some [[2], [1, 3], [0, 4], []])
   \<and> AttributedGraph_init
        [[0,1,0,0,0],[1,0,1,0,0],[0,1,0,1,0],[0,0,1,0,1],[0,0,0,1,0]] () () None
      = Inl AssertionError"
  using path_graph_shells path_graph_construction
  by (auto split: sum.splits)

end
